theory Spec2Isabelle
  imports Complex_Main
begin

section \<open>JavaScript values used by the extension\<close>

text \<open>
  The extension (\<^verbatim>\<open>src/extension.ts\<close>) works on JavaScript numbers and strings.

  \<^item> A JavaScript number is an IEEE 754 binary64 value. Type \<open>jsnum\<close> holds the finite ones
    as the real number they stand for, the two infinities and \<open>NaN\<close>. Every arithmetic
    operation computes the exact result and rounds it to the nearest binary64 value, ties to
    the even significand (\<open>fl\<close>), with gradual underflow and overflow to infinity. The sign
    of zero is not modelled: the zero is one value.
  \<^item> What the host reports as an integer (a CPU time, a memory size, a time stamp, the
    length of a chunk) is an \<open>int\<close> and becomes a number by \<open>ofInt\<close>, which rounds as well.
  \<^item> Strings are lists of 8-bit characters (the Latin-1 range of JavaScript's code units).
  \<^item> A thrown exception, or a rejected promise, is the left summand of a sum type.
\<close>

subsection \<open>Strings\<close>

definition isSpace :: "char \<Rightarrow> bool" where
  \<comment> \<open>White space and line terminators of \<^verbatim>\<open>trim()\<close> and of the regular expression \<^verbatim>\<open>\s\<close>,
      within the 8-bit range: TAB, LF, VT, FF, CR, SP, NBSP.\<close>
  "isSpace c = (c \<in> set [CHR 0x09, CHR 0x0A, CHR 0x0B, CHR 0x0C, CHR 0x0D, CHR '' '', CHR 0xA0])"

definition trim :: "string \<Rightarrow> string" where
  "trim s = rev (dropWhile isSpace (rev (dropWhile isSpace s)))"

fun splitOn :: "char \<Rightarrow> string \<Rightarrow> string list" where
  \<comment> \<open>\<^verbatim>\<open>s.split(c)\<close> with a one-character separator: never empty, keeps empty pieces.\<close>
  "splitOn c [] = [[]]"
| "splitOn c (x # xs) =
     (if x = c then [] # splitOn c xs
      else (case splitOn c xs of [] \<Rightarrow> [[x]] | t # ts \<Rightarrow> (x # t) # ts))"

function splitWs :: "string \<Rightarrow> string list" where
  \<comment> \<open>\<^verbatim>\<open>s.split(/\s+/)\<close>: every maximal run of white space is one separator.\<close>
  "splitWs s =
     (case dropWhile (\<lambda>c. \<not> isSpace c) s of
        [] \<Rightarrow> [s]
      | r # rs \<Rightarrow> takeWhile (\<lambda>c. \<not> isSpace c) s # splitWs (dropWhile isSpace rs))"
  by pat_completeness auto
termination
proof (relation "measure length")
  show "wf (measure length)" by simp
next
  fix s :: string and r rs
  assume "dropWhile (\<lambda>c. \<not> isSpace c) s = r # rs"
  then have "Suc (length rs) \<le> length s"
    using length_dropWhile_le [of "\<lambda>c. \<not> isSpace c" s] by simp
  moreover have "length (dropWhile isSpace rs) \<le> length rs"
    by (rule length_dropWhile_le)
  ultimately show "(dropWhile isSpace rs, s) \<in> measure length" by simp
qed

declare splitWs.simps [simp del]

definition startsWith :: "string \<Rightarrow> string \<Rightarrow> bool" where
  "startsWith s p = (take (length p) s = p)"

definition endsWith :: "string \<Rightarrow> string \<Rightarrow> bool" where
  "endsWith s p = (drop (length s - length p) s = p)"

fun includesStr :: "string \<Rightarrow> string \<Rightarrow> bool" where
  \<comment> \<open>\<^verbatim>\<open>s.includes(p)\<close>: \<open>p\<close> occurs in \<open>s\<close> as a contiguous substring.\<close>
  "includesStr [] p = (p = [])"
| "includesStr (x # xs) p = (startsWith (x # xs) p \<or> includesStr xs p)"

fun nth_opt :: "'a list \<Rightarrow> nat \<Rightarrow> 'a option" where
  \<comment> \<open>\<^verbatim>\<open>xs[i]\<close>: \<open>None\<close> is \<^verbatim>\<open>undefined\<close>, the value of an out-of-range read.\<close>
  "nth_opt [] i = None"
| "nth_opt (x # xs) 0 = Some x"
| "nth_opt (x # xs) (Suc i) = nth_opt xs i"

fun joinWith :: "string \<Rightarrow> string list \<Rightarrow> string" where
  \<comment> \<open>\<^verbatim>\<open>xs.join(sep)\<close>\<close>
  "joinWith sep [] = []"
| "joinWith sep [x] = x"
| "joinWith sep (x # y # ys) = x @ sep @ joinWith sep (y # ys)"

subsection \<open>Numbers\<close>

definition digitChar :: "int \<Rightarrow> char" where
  "digitChar d = ''0123456789'' ! nat d"

function showNat :: "int \<Rightarrow> string" where
  \<comment> \<open>the decimal digits of an integer that is not negative, \<open>''0''\<close> for zero\<close>
  "showNat n = (if n < 10 then [digitChar n] else showNat (n div 10) @ [digitChar (n mod 10)])"
  by pat_completeness auto
termination
  by (relation "measure nat") auto

declare showNat.simps [simp del]

definition digitVal :: "char \<Rightarrow> int option" where
  \<comment> \<open>the value of a digit or letter in \<^verbatim>\<open>parseInt\<close>: \<open>0-9\<close>, then \<open>a-z\<close> and \<open>A-Z\<close> from ten on\<close>
  "digitVal c =
     (let n = (of_char c :: int)
      in if 48 \<le> n \<and> n \<le> 57 then Some (n - 48)
         else if 97 \<le> n \<and> n \<le> 122 then Some (n - 87)
         else if 65 \<le> n \<and> n \<le> 90 then Some (n - 55)
         else None)"

definition isRadixDigit :: "int \<Rightarrow> char \<Rightarrow> bool" where
  "isRadixDigit R c = (case digitVal c of None \<Rightarrow> False | Some v \<Rightarrow> v < R)"

definition digitsValue :: "int \<Rightarrow> string \<Rightarrow> int" where
  "digitsValue R ds = foldl (\<lambda>acc c. R * acc + (case digitVal c of None \<Rightarrow> 0 | Some v \<Rightarrow> v)) 0 ds"

definition parseInt :: "string \<Rightarrow> int \<Rightarrow> int option" where
  \<comment> \<open>\<^verbatim>\<open>parseInt(s, radix)\<close> for the two ways the extension calls it: radix \<open>10\<close>, and no radix
      (written \<open>0\<close> here, as in the language definition), where a prefix \<^verbatim>\<open>0x\<close> selects radix 16.
      Leading white space is skipped, a sign is read, then the longest run of digits of the
      radix. \<open>None\<close> is \<open>NaN\<close>: there was no digit.\<close>
  "parseInt s radix =
     (let t = dropWhile isSpace s;
          neg = (t \<noteq> [] \<and> hd t = CHR ''-'');
          u = (if t \<noteq> [] \<and> (hd t = CHR ''-'' \<or> hd t = CHR ''+'') then tl t else t);
          hex = (radix = 0 \<and> (startsWith u ''0x'' \<or> startsWith u ''0X''));
          R = (if hex then 16 else if radix = 0 then 10 else radix);
          z = takeWhile (isRadixDigit R) (if hex then drop 2 u else u)
      in if z = [] then None
         else Some (if neg then - digitsValue R z else digitsValue R z))"

definition parseIntOpt :: "string option \<Rightarrow> int \<Rightarrow> int option" where
  \<comment> \<open>\<^verbatim>\<open>parseInt(undefined, 10)\<close> reads the string \<^verbatim>\<open>"undefined"\<close> and is \<open>NaN\<close>.\<close>
  "parseIntOpt a radix = (case a of None \<Rightarrow> None | Some s \<Rightarrow> parseInt s radix)"

datatype jsnum = Fin real | PosInf | NegInf | NaN

function ilog2 :: "int \<Rightarrow> int" where
  \<comment> \<open>the position of the leading bit of a positive integer\<close>
  "ilog2 n = (if n < 2 then 0 else 1 + ilog2 (n div 2))"
  by pat_completeness auto
termination
  by (relation "measure nat") auto

declare ilog2.simps [simp del]

definition pow2 :: "int \<Rightarrow> real" where
  "pow2 k = (if 0 \<le> k then 2 ^ nat k else 1 / 2 ^ nat (- k))"

definition expo :: "real \<Rightarrow> int" where
  \<comment> \<open>the binary exponent of a number other than zero: \<open>pow2 (expo x) \<le> \<bar>x\<bar> < pow2 (expo x + 1)\<close>\<close>
  "expo x =
     (let a = \<bar>x\<bar>
      in if 1 \<le> a then ilog2 \<lfloor>a\<rfloor>
         else (let k = ilog2 \<lfloor>1 / a\<rfloor> in if a * pow2 k = 1 then - k else - (k + 1)))"

definition roundEven :: "real \<Rightarrow> int" where
  \<comment> \<open>the nearest integer, the even one of two\<close>
  "roundEven y =
     (let n = \<lfloor>y\<rfloor>; d = y - of_int n
      in if d < 1 / 2 then n else if 1 / 2 < d then n + 1 else if even n then n else n + 1)"

definition fl :: "real \<Rightarrow> jsnum" where
  \<comment> \<open>Rounding to binary64: 53 significant bits, exponents from \<open>-1022\<close> (below it the
      spacing stays \<open>2^-1074\<close>), and infinity when the rounded magnitude reaches \<open>2^1024\<close>, that is when its
      exponent is 1024 or more.\<close>
  "fl x =
     (if x = 0 then Fin 0
      else (let e = max (expo x) (- 1022);
                q = pow2 (e - 52);
                r = of_int (roundEven (x / q)) * q
            in if 1024 \<le> expo r then (if 0 < x then PosInf else NegInf) else Fin r))"

definition ofInt :: "int \<Rightarrow> jsnum" where
  \<comment> \<open>the number for an integer of the host, and the number that \<^verbatim>\<open>parseInt\<close> returns for
      the integer it read\<close>
  "ofInt n = fl (real_of_int n)"

definition numOf :: "int option \<Rightarrow> jsnum" where
  "numOf x = (case x of None \<Rightarrow> NaN | Some v \<Rightarrow> ofInt v)"

definition orZero :: "int option \<Rightarrow> jsnum" where
  \<comment> \<open>\<^verbatim>\<open>x || 0\<close> on the result of \<^verbatim>\<open>parseInt\<close>: \<open>NaN\<close> and zero are falsy\<close>
  "orZero x = (case x of None \<Rightarrow> Fin 0 | Some v \<Rightarrow> ofInt v)"

fun jsPlus :: "jsnum \<Rightarrow> jsnum \<Rightarrow> jsnum" where
  "jsPlus NaN _ = NaN"
| "jsPlus _ NaN = NaN"
| "jsPlus (Fin a) (Fin b) = fl (a + b)"
| "jsPlus (Fin a) PosInf = PosInf"
| "jsPlus (Fin a) NegInf = NegInf"
| "jsPlus PosInf NegInf = NaN"
| "jsPlus NegInf PosInf = NaN"
| "jsPlus PosInf _ = PosInf"
| "jsPlus NegInf _ = NegInf"

fun jsMinus :: "jsnum \<Rightarrow> jsnum \<Rightarrow> jsnum" where
  "jsMinus NaN _ = NaN"
| "jsMinus _ NaN = NaN"
| "jsMinus (Fin a) (Fin b) = fl (a - b)"
| "jsMinus (Fin a) PosInf = NegInf"
| "jsMinus (Fin a) NegInf = PosInf"
| "jsMinus PosInf PosInf = NaN"
| "jsMinus NegInf NegInf = NaN"
| "jsMinus PosInf _ = PosInf"
| "jsMinus NegInf _ = NegInf"

fun jsTimes :: "jsnum \<Rightarrow> jsnum \<Rightarrow> jsnum" where
  "jsTimes NaN _ = NaN"
| "jsTimes _ NaN = NaN"
| "jsTimes (Fin a) (Fin b) = fl (a * b)"
| "jsTimes (Fin a) PosInf = (if a = 0 then NaN else if 0 < a then PosInf else NegInf)"
| "jsTimes (Fin a) NegInf = (if a = 0 then NaN else if 0 < a then NegInf else PosInf)"
| "jsTimes PosInf (Fin b) = (if b = 0 then NaN else if 0 < b then PosInf else NegInf)"
| "jsTimes NegInf (Fin b) = (if b = 0 then NaN else if 0 < b then NegInf else PosInf)"
| "jsTimes PosInf PosInf = PosInf"
| "jsTimes NegInf NegInf = PosInf"
| "jsTimes PosInf NegInf = NegInf"
| "jsTimes NegInf PosInf = NegInf"

fun jsDivide :: "jsnum \<Rightarrow> jsnum \<Rightarrow> jsnum" where
  "jsDivide NaN _ = NaN"
| "jsDivide _ NaN = NaN"
| "jsDivide (Fin a) (Fin b) =
     (if b = 0 then (if a = 0 then NaN else if 0 < a then PosInf else NegInf)
      else fl (a / b))"
| "jsDivide (Fin a) _ = Fin 0"
| "jsDivide PosInf (Fin b) = (if 0 \<le> b then PosInf else NegInf)"
| "jsDivide NegInf (Fin b) = (if 0 \<le> b then NegInf else PosInf)"
| "jsDivide _ _ = NaN"

fun jsLess :: "jsnum \<Rightarrow> jsnum \<Rightarrow> bool" where
  \<comment> \<open>\<^verbatim>\<open>x < y\<close>: false as soon as one side is \<open>NaN\<close>\<close>
  "jsLess NaN _ = False"
| "jsLess _ NaN = False"
| "jsLess (Fin a) (Fin b) = (a < b)"
| "jsLess (Fin a) PosInf = True"
| "jsLess NegInf (Fin b) = True"
| "jsLess NegInf PosInf = True"
| "jsLess _ _ = False"

definition jsLessEq :: "jsnum \<Rightarrow> jsnum \<Rightarrow> bool" where
  \<comment> \<open>\<^verbatim>\<open>x <= y\<close>\<close>
  "jsLessEq x y = (x \<noteq> NaN \<and> y \<noteq> NaN \<and> (x = y \<or> jsLess x y))"

definition exponentialString :: "real \<Rightarrow> string" where
  \<comment> \<open>\<^verbatim>\<open>Number::toString\<close> of a magnitude of at least \<open>10^21\<close> (exponential notation, with the
      shortest digits that read back as the same double). It is a matter of the binary
      representation and is left unspecified: nothing below depends on its value.\<close>
  "exponentialString x = undefined x"

definition roundScaled :: "nat \<Rightarrow> real \<Rightarrow> int" where
  \<comment> \<open>the integer \<open>n\<close> for which \<open>n / 10^f\<close> is nearest to \<open>\<bar>x\<bar>\<close>, the larger one of two\<close>
  "roundScaled f x = \<lfloor>\<bar>x\<bar> * 10 ^ f + 1 / 2\<rfloor>"

definition fixedDigits :: "nat \<Rightarrow> int \<Rightarrow> string" where
  \<comment> \<open>the digits of \<open>n\<close>, padded with zeros to \<open>f + 1\<close> digits, with a point before the last \<open>f\<close>\<close>
  "fixedDigits f n =
     (let m = showNat n
      in if f = 0 then m
         else (let z = replicate (f + 1 - length m) (CHR ''0'') @ m;
                   k = length z
               in take (k - f) z @ ''.'' @ drop (k - f) z))"

definition toFixed :: "nat \<Rightarrow> real \<Rightarrow> string" where
  \<comment> \<open>\<^verbatim>\<open>x.toFixed(f)\<close> for a finite \<open>x\<close>\<close>
  "toFixed f x =
     (if x < 0 then ''-'' else '''') @
     (if 10 ^ 21 \<le> \<bar>x\<bar> then exponentialString \<bar>x\<bar> else fixedDigits f (roundScaled f x))"

definition fixedValue :: "nat \<Rightarrow> real \<Rightarrow> real" where
  \<comment> \<open>the number that the digits of \<open>toFixed f x\<close> denote\<close>
  "fixedValue f x = (if x < 0 then - 1 else 1) * real_of_int (roundScaled f x) / 10 ^ f"

fun jsToFixed :: "nat \<Rightarrow> jsnum \<Rightarrow> string" where
  "jsToFixed f (Fin x) = toFixed f x"
| "jsToFixed f PosInf = ''Infinity''"
| "jsToFixed f NegInf = ''-Infinity''"
| "jsToFixed f NaN = ''NaN''"

section \<open>CPU load tracker\<close>

datatype js_error = TypeError

record CpuTimes =
  user :: int
  nice :: int
  sys :: int
  idle :: int
  irq :: int

record CpuInfo =
  model :: string
  speed :: int
  times :: CpuTimes

definition timesTotal :: "CpuTimes \<Rightarrow> jsnum" where
  \<comment> \<open>\<^verbatim>\<open>for (const type in c.times) total += c.times[type]\<close>, from \<open>total = 0\<close>, over the
      properties in the order in which the object lists them\<close>
  "timesTotal t =
     foldl jsPlus (Fin 0) [ofInt (user t), ofInt (nice t), ofInt (sys t), ofInt (idle t), ofInt (irq t)]"

fun cpuDiffs :: "CpuInfo list \<Rightarrow> CpuInfo list \<Rightarrow> jsnum \<Rightarrow> jsnum \<Rightarrow> js_error + (jsnum \<times> jsnum)" where
  \<comment> \<open>The loop of \<^verbatim>\<open>calculateCpuUsage\<close> over \<open>i < currentCpus.length\<close>; the two lists are the
      entries of \<open>currentCpus\<close> and \<open>previousCpus\<close> from index \<open>i\<close> on. When \<open>previousCpus\<close> has no
      entry \<open>i\<close>, \<open>prev\<close> is \<^verbatim>\<open>undefined\<close> and reading \<^verbatim>\<open>prev.times\<close> throws a TypeError.\<close>
  "cpuDiffs [] previous idleDiff totalDiff = Inr (idleDiff, totalDiff)"
| "cpuDiffs (current # cs) [] idleDiff totalDiff = Inl TypeError"
| "cpuDiffs (current # cs) (prev # ps) idleDiff totalDiff =
     (let currentTotal = timesTotal (times current);
          prevTotal = timesTotal (times prev);
          currentIdle = ofInt (idle (times current));
          prevIdle = ofInt (idle (times prev))
      in cpuDiffs cs ps (jsPlus idleDiff (jsMinus currentIdle prevIdle))
                        (jsPlus totalDiff (jsMinus currentTotal prevTotal)))"

definition usagePercent :: "jsnum \<Rightarrow> jsnum \<Rightarrow> jsnum" where
  \<comment> \<open>\<^verbatim>\<open>(1 - idleDiff / totalDiff) * 100\<close>\<close>
  "usagePercent idleDiff totalDiff = jsTimes (jsMinus (Fin 1) (jsDivide idleDiff totalDiff)) (Fin 100)"

definition calculateCpuUsage :: "CpuInfo list \<Rightarrow> CpuInfo list \<Rightarrow> js_error + (string \<times> CpuInfo list)" where
  \<comment> \<open>\<open>calculateCpuUsage currentCpus previousCpus\<close> returns the usage string and the new value of
      the global \<open>previousCpus\<close>. The throw happens inside the loop, before the assignment to
      \<open>previousCpus\<close>: \<open>Inl\<close> leaves the global as it was.\<close>
  "calculateCpuUsage currentCpus previousCpus =
     (case cpuDiffs currentCpus previousCpus (Fin 0) (Fin 0) of
        Inl e \<Rightarrow> Inl e
      | Inr (idleDiff, totalDiff) \<Rightarrow>
          Inr (if totalDiff = Fin 0 then ''0.0''
               else jsToFixed 1 (usagePercent idleDiff totalDiff),
               currentCpus))"

section \<open>Disk usage probe\<close>

datatype exec_result = ExecError | ExecOk string

definition dfUsage :: "string \<Rightarrow> string" where
  \<comment> \<open>the callback of \<^verbatim>\<open>df -h --output=size,used,pcent /\<close> on its standard output\<close>
  "dfUsage stdout =
     (let lines = splitOn (CHR 0x0A) (trim stdout)
      in if 2 \<le> length lines then
           (let parts = splitWs (trim (lines ! 1))
            in if 3 \<le> length parts then
                 (let size = parts ! 0; used = parts ! 1; percent = parts ! 2
                  in used @ ''/'' @ size @ '' '' @ percent)
               else ''?'')
         else ''?'')"

fun wmicRows :: "string list \<Rightarrow> string" where
  \<comment> \<open>the loop over the rows of \<^verbatim>\<open>wmic logicaldisk get size,freespace,caption\<close>, header skipped\<close>
  "wmicRows [] = ''?''"
| "wmicRows (row # rows) =
     (let parts = splitWs (trim row)
      in if 3 \<le> length parts \<and> includesStr (parts ! (length parts - 3)) ''C:'' then
           (let freeBytes = numOf (parseInt (parts ! (length parts - 2)) 0);
                sizeBytes = numOf (parseInt (parts ! (length parts - 1)) 0);
                usedBytes = jsMinus sizeBytes freeBytes;
                usedGB = jsToFixed 0 (jsDivide usedBytes (Fin (1024 * 1024 * 1024)));
                totalGB = jsToFixed 0 (jsDivide sizeBytes (Fin (1024 * 1024 * 1024)));
                percent = jsToFixed 0 (jsTimes (jsDivide usedBytes sizeBytes) (Fin 100))
            in usedGB @ ''/'' @ totalGB @ ''GB '' @ percent @ ''%'')
         else wmicRows rows)"

definition wmicUsage :: "string \<Rightarrow> string" where
  "wmicUsage stdout =
     (let lines = filter (\<lambda>line. trim line \<noteq> []) (splitOn (CHR 0x0A) (trim stdout))
      in wmicRows (drop 1 lines))"

definition getDiskUsage :: "string \<Rightarrow> exec_result \<Rightarrow> string" where
  \<comment> \<open>\<open>getDiskUsage platform r\<close>: \<open>platform\<close> is \<^verbatim>\<open>os.platform()\<close>, \<open>r\<close> is what \<^verbatim>\<open>cp.exec\<close> hands
      to the callback for the command of that platform: an error, or the text of standard
      output. The promise is only ever resolved, with a string.\<close>
  "getDiskUsage platform r =
     (if platform = ''win32'' then
        (case r of ExecError \<Rightarrow> ''?'' | ExecOk stdout \<Rightarrow> wmicUsage stdout)
      else
        (case r of ExecError \<Rightarrow> ''?'' | ExecOk stdout \<Rightarrow> dfUsage stdout))"

section \<open>Network throughput tracker\<close>

datatype read_result = ReadError | ReadOk string

record NetSample =
  bytes :: jsnum
  time :: int

definition ifaceBytes :: "jsnum \<Rightarrow> string \<Rightarrow> jsnum" where
  \<comment> \<open>one round of the loop over the lines of \<^verbatim>\<open>/proc/net/dev\<close>: \<open>totalBytes\<close> after the
      round (unchanged for the loopback line). \<open>splitWs\<close> never returns the empty list, so
      \<open>parts[0]\<close> is \<open>hd parts\<close>.\<close>
  "ifaceBytes totalBytes rawLine =
     (let line = trim rawLine
      in if includesStr line ''lo:'' then totalBytes
         else
           (let parts = splitWs line;
                rxtx =
                  (if includesStr (hd parts) '':'' then
                     (if endsWith (hd parts) '':'' then
                        (orZero (parseIntOpt (nth_opt parts 1) 10),
                         orZero (parseIntOpt (nth_opt parts 9) 10))
                      else
                        (let sub = splitOn (CHR '':'') (hd parts)
                         in (orZero (parseIntOpt (nth_opt sub 1) 10),
                             orZero (parseIntOpt (nth_opt parts 8) 10))))
                   else if (case nth_opt parts 1 of None \<Rightarrow> False
                            | Some p1 \<Rightarrow> p1 \<noteq> [] \<and> startsWith p1 '':'') then
                     (orZero (parseIntOpt (nth_opt parts 2) 10),
                      orZero (parseIntOpt (nth_opt parts 10) 10))
                   else (Fin 0, Fin 0))
            in jsPlus totalBytes (jsPlus (fst rxtx) (snd rxtx))))"

definition sumBytes :: "string \<Rightarrow> jsnum" where
  \<comment> \<open>\<open>totalBytes\<close> after the loop, which starts at the third line\<close>
  "sumBytes data = foldl ifaceBytes (Fin 0) (drop 2 (splitOn (CHR 0x0A) data))"

definition trafMbps :: "jsnum \<Rightarrow> int \<Rightarrow> NetSample \<Rightarrow> jsnum" where
  \<comment> \<open>the value of \<open>mbps\<close> for the counter \<open>totalBytes\<close> read at time \<open>now\<close>\<close>
  "trafMbps totalBytes now prev =
     (if 0 < time prev then
        (let timeDiffSec = jsDivide (jsMinus (ofInt now) (ofInt (time prev))) (Fin 1000);
             bytesDiff = jsMinus totalBytes (bytes prev)
         in if jsLess (Fin 0) timeDiffSec \<and> jsLessEq (Fin 0) bytesDiff then
              (let bps = jsDivide bytesDiff timeDiffSec
               in jsDivide (jsTimes bps (Fin 8)) (Fin (1000 * 1000)))
            else Fin 0)
      else Fin 0)"

definition trafDisplay :: "jsnum \<Rightarrow> string" where
  "trafDisplay mbps =
     (if jsLess mbps (Fin 1) then jsToFixed 0 (jsTimes mbps (Fin 1000)) @ ''Kbps''
      else jsToFixed 1 mbps @ ''Mbps'')"

definition getTrafUsage :: "string \<Rightarrow> read_result \<Rightarrow> int \<Rightarrow> NetSample \<Rightarrow> string \<times> NetSample" where
  \<comment> \<open>\<open>getTrafUsage platform r now prevNet\<close> returns the display and the new \<open>prevNet\<close>.
      \<open>r\<close> is what \<^verbatim>\<open>fs.readFile('/proc/net/dev', 'utf8', ...)\<close> hands to the callback and
      \<open>now\<close> is \<^verbatim>\<open>Date.now()\<close> there, a whole number of milliseconds.\<close>
  "getTrafUsage platform r now prevNet =
     (if platform \<noteq> ''linux'' then (''N/A'', prevNet)
      else
        (case r of
           ReadError \<Rightarrow> (''0Kbps'', prevNet)
         | ReadOk data \<Rightarrow>
             (let totalBytes = sumBytes data;
                  mbps = trafMbps totalBytes now prevNet
              in (trafDisplay mbps, \<lparr>bytes = totalBytes, time = now\<rparr>))))"

section \<open>Sampling: one tick\<close>

record Host =
  platform :: string
  cpus :: "CpuInfo list"
  totalmem :: int
  freemem :: int
  diskExec :: exec_result
  netRead :: read_result
  dateNow :: int

record Trackers =
  previousCpus :: "CpuInfo list"
  prevNet :: NetSample


record Resources =
  cpu :: string
  ram :: string
  disk :: string
  traf :: string

definition ramUsage :: "int \<Rightarrow> int \<Rightarrow> string" where
  \<comment> \<open>the \<open>ram\<close> field of \<^verbatim>\<open>getResources\<close> for \<^verbatim>\<open>os.totalmem()\<close> and \<^verbatim>\<open>os.freemem()\<close>\<close>
  "ramUsage totalMem freeMem =
     (let usedMem = jsMinus (ofInt totalMem) (ofInt freeMem);
          ramPercentage = jsToFixed 1 (jsTimes (jsDivide usedMem (ofInt totalMem)) (Fin 100));
          usedMemGB = jsToFixed 1 (jsDivide usedMem (Fin (1024 * 1024 * 1024)));
          totalMemGB = jsToFixed 1 (jsDivide (ofInt totalMem) (Fin (1024 * 1024 * 1024)))
      in usedMemGB @ ''/'' @ totalMemGB @ ''GB '' @ ramPercentage @ ''%'')"

definition getResources :: "Host \<Rightarrow> Trackers \<Rightarrow> js_error + (Resources \<times> Trackers)" where
  \<comment> \<open>One run of \<^verbatim>\<open>getResources\<close> from its call to the settling of its promise, on what the
      host answers during that run. \<open>Inl\<close> is a rejected promise: the exception of
      \<^verbatim>\<open>calculateCpuUsage\<close> is thrown before anything is stored, so the trackers are as before.\<close>
  "getResources h tr =
     (case calculateCpuUsage (cpus h) (previousCpus tr) of
        Inl e \<Rightarrow> Inl e
      | Inr (currentCpuUsage, cpus') \<Rightarrow>
          (let diskUsage = getDiskUsage (platform h) (diskExec h);
               (trafUsage, net') = getTrafUsage (platform h) (netRead h) (dateNow h) (prevNet tr)
           in Inr (\<lparr>cpu = currentCpuUsage,
                    ram = ramUsage (totalmem h) (freemem h),
                    disk = diskUsage,
                    traf = trafUsage\<rparr>,
                   \<lparr>previousCpus = cpus', prevNet = net'\<rparr>)))"

record Config =
  showOS :: bool
  showCPU :: bool
  showRAM :: bool
  showDisk :: bool
  showTraffic :: bool
  showBandwidth :: bool
  iconOnly :: bool

record StatusBar =
  "text" :: string
  tooltip :: string

definition ramPercentOf :: "string \<Rightarrow> string" where
  \<comment> \<open>\<^verbatim>\<open>resources.ram.split(' ').pop() || resources.ram\<close>: the empty string is falsy\<close>
  "ramPercentOf r = (let l = last (splitOn (CHR '' '') r) in if l = [] then r else l)"

definition diskPercentOf :: "string \<Rightarrow> string" where
  "diskPercentOf d =
     (let diskParts = splitOn (CHR '' '') d
      in if 1 < length diskParts then diskParts ! (length diskParts - 1) else d)"

definition statusBarOf :: "Config \<Rightarrow> string \<Rightarrow> string \<Rightarrow> Resources \<Rightarrow> StatusBar" where
  \<comment> \<open>the text and tooltip that \<^verbatim>\<open>updateStatusBarItem\<close> sets, for the name of the operating
      system \<open>osName\<close> and the bandwidth display \<open>bwStr\<close>\<close>
  "statusBarOf cfg osName bwStr resources =
     (let ramPercent = ramPercentOf (ram resources);
          diskPercent = diskPercentOf (disk resources);
          parts =
            (if showOS cfg then [''$(desktop-download) '' @ osName] else []) @
            (if showCPU cfg then
               [''$(pulse) '' @ (if iconOnly cfg then [] else ''CPU '') @ cpu resources @ ''%'']
             else []) @
            (if showRAM cfg then
               [''$(server) '' @ (if iconOnly cfg then [] else ''RAM '') @ ramPercent]
             else []) @
            (if showDisk cfg then
               [''$(database) '' @ (if iconOnly cfg then [] else ''DISK '') @ diskPercent]
             else []) @
            (if showTraffic cfg then
               [''$(arrow-swap) '' @ (if iconOnly cfg then [] else ''TRAF '') @ traf resources]
             else []) @
            (if showBandwidth cfg then
               [''$(dashboard) '' @ (if iconOnly cfg then [] else ''BW '') @ bwStr]
             else [])
      in \<lparr>text = joinWith '' | '' parts,
          tooltip = ''OS: '' @ osName @ [CHR 0x0A] @
                    ''CPU Usage: '' @ cpu resources @ ''%'' @ [CHR 0x0A] @
                    ''RAM Usage: '' @ ram resources @ [CHR 0x0A] @
                    ''Disk Usage: '' @ disk resources @ [CHR 0x0A] @
                    ''Traffic: '' @ traf resources @ [CHR 0x0A] @
                    ''Bandwidth: '' @ bwStr @ '' (Click to Test)''\<rparr>)"

definition updateStatusBarItem ::
  "Config \<Rightarrow> string \<Rightarrow> bool \<Rightarrow> string \<Rightarrow> Host \<Rightarrow> Trackers \<Rightarrow> js_error + (StatusBar \<times> Trackers)" where
  \<comment> \<open>\<open>updateStatusBarItem cfg osName isTestingSpeed lastSpeedTestResult h tr\<close>: one tick.
      \<open>osName\<close> is what \<^verbatim>\<open>getOSName()\<close> returned. When \<^verbatim>\<open>getResources\<close> rejects, the status
      bar is not written.\<close>
  "updateStatusBarItem cfg osName isTestingSpeed lastSpeedTestResult h tr =
     (case getResources h tr of
        Inl e \<Rightarrow> Inl e
      | Inr (resources, tr') \<Rightarrow>
          (let bwStr = (if isTestingSpeed then ''Testing...'' else lastSpeedTestResult)
           in Inr (statusBarOf cfg osName bwStr resources, tr')))"

section \<open>Bandwidth prober\<close>

text \<open>
  \<^verbatim>\<open>runSpeedTest\<close> runs in two pieces, each without interruption: from the call to the
  \<^verbatim>\<open>await\<close> of the download, and from the settling of the download to the end of
  \<^verbatim>\<open>finally\<close>. Between the two, chunks arrive. A run that waits keeps its own \<open>startTime\<close>
  and \<open>downloadedBytes\<close>; the runs that wait are the list \<open>pending\<close>. The calls of
  \<^verbatim>\<open>https.get\<close>, the notifications and the calls of \<^verbatim>\<open>updateStatusBarItem\<close> (which never
  writes the two globals of the prober) are recorded.
\<close>

record SpeedRun =
  startTime :: int
  downloadedBytes :: jsnum

record Prober =
  isTestingSpeed :: bool
  lastSpeedTestResult :: string
  pending :: "SpeedRun list"
  requests :: nat
  infoMessages :: "string list"
  errorMessages :: "string list"
  statusBarUpdates :: nat

datatype outcome =
    Ended int
  | BadStatus int
  | Rejected string

definition initialProber :: Prober where
  "initialProber =
     \<lparr>isTestingSpeed = False, lastSpeedTestResult = ''N/A'', pending = [], requests = 0,
      infoMessages = [], errorMessages = [], statusBarUpdates = 0\<rparr>"

definition runSpeedTest :: "int \<Rightarrow> Prober \<Rightarrow> Prober" where
  \<comment> \<open>\<open>runSpeedTest now p\<close>: a call of \<^verbatim>\<open>runSpeedTest\<close> when \<^verbatim>\<open>Date.now()\<close> is \<open>now\<close>, up to
      the \<^verbatim>\<open>await\<close>\<close>
  "runSpeedTest now p =
     (if isTestingSpeed p then p
      else p\<lparr>isTestingSpeed := True,
             lastSpeedTestResult := ''Testing...'',
             statusBarUpdates := statusBarUpdates p + 1,
             requests := requests p + 1,
             pending := pending p @ [\<lparr>startTime = now, downloadedBytes = Fin 0\<rparr>]\<rparr>)"

definition onData :: "nat \<Rightarrow> int \<Rightarrow> Prober \<Rightarrow> Prober" where
  \<comment> \<open>a chunk of \<open>n\<close> bytes arrives for the waiting run \<open>i\<close>\<close>
  "onData i n p =
     (if i < length (pending p) then
        p\<lparr>pending := (pending p)[i := (pending p ! i)
               \<lparr>downloadedBytes := jsPlus (downloadedBytes (pending p ! i)) (ofInt n)\<rparr>]\<rparr>
      else p)"

definition speedResult :: "SpeedRun \<Rightarrow> int \<Rightarrow> string" where
  \<comment> \<open>the display after a download that ended at \<open>endTime\<close>\<close>
  "speedResult run endTime =
     (let durationSec = jsDivide (jsMinus (ofInt endTime) (ofInt (startTime run))) (Fin 1000);
          bps = jsDivide (jsTimes (downloadedBytes run) (Fin 8)) durationSec;
          mbps = jsDivide bps (Fin (1000 * 1000))
      in jsToFixed 1 mbps @ ''Mbps'')"

definition failureMessage :: "outcome \<Rightarrow> string" where
  \<comment> \<open>\<^verbatim>\<open>error.message\<close> in the \<^verbatim>\<open>catch\<close> clause\<close>
  "failureMessage out =
     (case out of
        Ended endTime \<Rightarrow> []
      | BadStatus code \<Rightarrow> ''Request failed: '' @ showNat code
      | Rejected msg \<Rightarrow> msg)"

definition onSettled :: "nat \<Rightarrow> outcome \<Rightarrow> Prober \<Rightarrow> Prober" where
  \<comment> \<open>The download of the waiting run \<open>i\<close> settles: \<open>Ended\<close> is the \<^verbatim>\<open>end\<close> event of a
      response with status 200, \<open>BadStatus\<close> a response with another status, \<open>Rejected\<close> an
      \<^verbatim>\<open>error\<close> event of the request or of the response. The run goes through \<^verbatim>\<open>try\<close> or
      \<^verbatim>\<open>catch\<close>, then \<^verbatim>\<open>finally\<close>, and is over.\<close>
  "onSettled i out p =
     (if i < length (pending p) then
        (let run = pending p ! i;
             p1 = (case out of
                     Ended endTime \<Rightarrow>
                       p\<lparr>lastSpeedTestResult := speedResult run endTime,
                         infoMessages := infoMessages p @
                           [''Speed Test Complete: '' @ speedResult run endTime]\<rparr>
                   | _ \<Rightarrow>
                       p\<lparr>lastSpeedTestResult := ''Error'',
                         errorMessages := errorMessages p @
                           [''Speed Test Failed: '' @ failureMessage out]\<rparr>)
         in p1\<lparr>isTestingSpeed := False,
               statusBarUpdates := statusBarUpdates p1 + 1,
               pending := take i (pending p) @ drop (Suc i) (pending p)\<rparr>)
      else p)"

datatype event =
    Click int
  | Data nat int
  | Settled nat outcome

fun step :: "Prober \<Rightarrow> event \<Rightarrow> Prober" where
  "step p (Click now) = runSpeedTest now p"
| "step p (Data i n) = onData i n p"
| "step p (Settled i out) = onSettled i out p"

definition runEvents :: "event list \<Rightarrow> Prober" where
  \<comment> \<open>the prober after a sequence of events, from activation\<close>
  "runEvents evs = foldl step initialProber evs"

section \<open>Notions of the specification\<close>

text \<open>
  The specification speaks of the summed deltas of two CPU samples, of counters that do not
  decrease (here also: that are not negative, and what they add up to), of the white-space
  separated tokens of a line and of the single probe in flight.
  These notions are defined here on their own, and the properties below relate the
  functions of the extension to them.
\<close>

definition idleDelta :: "CpuInfo list \<Rightarrow> CpuInfo list \<Rightarrow> int" where
  \<comment> \<open>\<open>sum(idleDelta)\<close> over the cores that both samples have, aligned by index\<close>
  "idleDelta cur prev = (\<Sum>(c, p)\<leftarrow>zip cur prev. idle (times c) - idle (times p))"

definition totalTime :: "CpuTimes \<Rightarrow> int" where
  \<comment> \<open>the grand total of the time counters of a core\<close>
  "totalTime t = user t + nice t + sys t + idle t + irq t"

definition totalDelta :: "CpuInfo list \<Rightarrow> CpuInfo list \<Rightarrow> int" where
  \<comment> \<open>\<open>sum(totalDelta)\<close> over the cores that both samples have, aligned by index\<close>
  "totalDelta cur prev = (\<Sum>(c, p)\<leftarrow>zip cur prev. totalTime (times c) - totalTime (times p))"

definition cpuPercent :: "CpuInfo list \<Rightarrow> CpuInfo list \<Rightarrow> real" where
  \<comment> \<open>\<open>(1 - sum(idleDelta) / sum(totalDelta)) * 100\<close>\<close>
  "cpuPercent cur prev =
     (1 - real_of_int (idleDelta cur prev) / real_of_int (totalDelta cur prev)) * 100"

definition nonDecreasing :: "CpuInfo \<Rightarrow> CpuInfo \<Rightarrow> bool" where
  \<comment> \<open>no counter of the core is smaller in the current sample \<open>c\<close> than in the previous one \<open>p\<close>\<close>
  "nonDecreasing p c =
     (user (times p) \<le> user (times c) \<and> nice (times p) \<le> nice (times c) \<and>
      sys (times p) \<le> sys (times c) \<and> idle (times p) \<le> idle (times c) \<and>
      irq (times p) \<le> irq (times c))"

definition nonNegative :: "CpuInfo \<Rightarrow> bool" where
  \<comment> \<open>no counter of the core is negative\<close>
  "nonNegative c =
     (0 \<le> user (times c) \<and> 0 \<le> nice (times c) \<and> 0 \<le> sys (times c) \<and>
      0 \<le> idle (times c) \<and> 0 \<le> irq (times c))"

definition grandTotal :: "CpuInfo list \<Rightarrow> int" where
  \<comment> \<open>all the time counters of a sample, added up\<close>
  "grandTotal cs = (\<Sum>c\<leftarrow>cs. totalTime (times c))"

function wordsOf :: "string \<Rightarrow> string list" where
  \<comment> \<open>the white-space separated tokens of a string: its maximal runs of other characters\<close>
  "wordsOf s =
     (case dropWhile isSpace s of
        [] \<Rightarrow> []
      | c # cs \<Rightarrow> (c # takeWhile (\<lambda>x. \<not> isSpace x) cs) # wordsOf (dropWhile (\<lambda>x. \<not> isSpace x) cs))"
  by pat_completeness auto
termination
proof (relation "measure length")
  show "wf (measure length)" by simp
next
  fix s :: string and c cs
  assume "dropWhile isSpace s = c # cs"
  then have "Suc (length cs) \<le> length s"
    using length_dropWhile_le [of isSpace s] by simp
  moreover have "length (dropWhile (\<lambda>x. \<not> isSpace x) cs) \<le> length cs"
    by (rule length_dropWhile_le)
  ultimately show "(dropWhile (\<lambda>x. \<not> isSpace x) cs, s) \<in> measure length" by simp
qed

declare wordsOf.simps [simp del]

definition readFixed :: "string \<Rightarrow> real" where
  \<comment> \<open>the number that a decimal numeral denotes: an optional minus sign, digits, and
      optionally a point and more digits\<close>
  "readFixed s =
     (let neg = (s \<noteq> [] \<and> hd s = CHR ''-'');
          body = (if neg then tl s else s);
          ip = takeWhile (\<lambda>c. c \<noteq> CHR ''.'') body;
          fp = drop 1 (dropWhile (\<lambda>c. c \<noteq> CHR ''.'') body)
      in (if neg then - 1 else 1) * real_of_int (digitsValue 10 (ip @ fp)) / 10 ^ length fp)"

definition singleFlight :: "Prober \<Rightarrow> bool" where
  \<comment> \<open>at most one run waits, and the flag says whether one does\<close>
  "singleFlight p = (length (pending p) \<le> 1 \<and> (isTestingSpeed p \<longleftrightarrow> pending p \<noteq> []))"

definition isFailure :: "outcome \<Rightarrow> bool" where
  \<comment> \<open>a status other than 200, a connection error or a stream error\<close>
  "isFailure out = (case out of Ended endTime \<Rightarrow> False | _ \<Rightarrow> True)"

section \<open>Properties of the numbers and strings\<close>

lemmas toFixed_eval =
  toFixed_def roundScaled_def fixedDigits_def showNat.simps digitChar_def

lemma roundScaled_nonneg: "0 \<le> roundScaled f x"
  by (simp add: roundScaled_def)

lemma roundScaled_le:
  assumes "0 \<le> x" and "x \<le> of_int n"
  shows "roundScaled f x \<le> n * 10 ^ f"
proof -
  have "x * 10 ^ f \<le> of_int n * 10 ^ f"
    using assms by (intro mult_right_mono) simp_all
  moreover have "\<bar>x\<bar> = x"
    using assms by simp
  moreover have "real_of_int (n * 10 ^ f) = of_int n * 10 ^ f"
    by simp
  ultimately have "\<bar>x\<bar> * 10 ^ f + 1 / 2 < real_of_int (n * 10 ^ f) + 1"
    by linarith
  then show ?thesis
    unfolding roundScaled_def by (simp only: floor_le_iff)
qed

lemma fixedValue_range:
  assumes "0 \<le> x" and "x \<le> of_int n"
  shows "0 \<le> fixedValue f x \<and> fixedValue f x \<le> of_int n"
proof -
  have "real_of_int (roundScaled f x) \<le> real_of_int (n * 10 ^ f)"
    using roundScaled_le [OF assms, of f] by (simp only: of_int_le_iff)
  then have "real_of_int (roundScaled f x) / 10 ^ f \<le> of_int n"
    by (simp add: divide_le_eq)
  moreover have "0 \<le> real_of_int (roundScaled f x)"
    using roundScaled_nonneg [of f x] by simp
  ultimately show ?thesis
    using assms by (simp add: fixedValue_def)
qed

lemma fixedValue_near:
  assumes "0 \<le> x"
  shows "\<bar>fixedValue f x - x\<bar> \<le> 1 / (2 * 10 ^ f)"
proof -
  let ?y = "x * 10 ^ f + 1 / 2"
  define r where "r = real_of_int (roundScaled f x)"
  have "r = real_of_int \<lfloor>?y\<rfloor>"
    using assms by (simp add: roundScaled_def r_def)
  moreover have "real_of_int \<lfloor>?y\<rfloor> \<le> ?y" "?y < real_of_int \<lfloor>?y\<rfloor> + 1"
    by linarith+
  ultimately have ab: "\<bar>r - x * 10 ^ f\<bar> \<le> 1 / 2"
    by linarith
  have p: "(0::real) < 10 ^ f" by simp
  have "fixedValue f x - x = (r - x * 10 ^ f) / 10 ^ f"
    using assms by (simp add: fixedValue_def field_simps r_def)
  then have "\<bar>fixedValue f x - x\<bar> = \<bar>r - x * 10 ^ f\<bar> / 10 ^ f"
    by simp
  also have "\<dots> \<le> (1 / 2) / 10 ^ f"
    using ab p by (intro divide_right_mono) simp_all
  finally show ?thesis by simp
qed

text \<open>The digits that \<^verbatim>\<open>toFixed\<close> prints denote the rounded number.\<close>

lemma digitChar_cases:
  assumes "0 \<le> d" and "d < 10"
  shows "digitVal (digitChar d) = Some d \<and> digitChar d \<noteq> CHR ''.'' \<and> digitChar d \<noteq> CHR ''-''"
proof -
  from assms have "d = 0 \<or> d = 1 \<or> d = 2 \<or> d = 3 \<or> d = 4 \<or> d = 5 \<or> d = 6 \<or> d = 7 \<or> d = 8 \<or> d = 9"
    by arith
  then show ?thesis
    by (elim disjE) (simp_all add: digitChar_def digitVal_def)
qed

lemma digitsValue_snoc:
  "digitsValue R (ds @ [c]) = R * digitsValue R ds + (case digitVal c of None \<Rightarrow> 0 | Some v \<Rightarrow> v)"
  by (simp add: digitsValue_def)

lemma digitsValue_zeros: "digitsValue R (replicate k (CHR ''0'') @ ds) = digitsValue R ds"
proof (induction ds rule: rev_induct)
  case Nil
  show ?case by (induction k) (simp_all add: digitsValue_def digitVal_def)
next
  case (snoc c ds)
  have "digitsValue R ((replicate k (CHR ''0'') @ ds) @ [c]) = digitsValue R (ds @ [c])"
    unfolding digitsValue_snoc snoc ..
  then show ?case by simp
qed

lemma showNat_value:
  "0 \<le> n \<Longrightarrow> digitsValue 10 (showNat n) = n \<and> showNat n \<noteq> [] \<and>
     CHR ''.'' \<notin> set (showNat n) \<and> CHR ''-'' \<notin> set (showNat n)"
proof (induction n rule: showNat.induct)
  case (1 n)
  show ?case
  proof (cases "n < 10")
    case True
    have "showNat n = [digitChar n]"
      using True by (subst showNat.simps) simp
    then show ?thesis
      using digitChar_cases [of n] True 1(2) by (auto simp: digitsValue_def)
  next
    case False
    have s: "showNat n = showNat (n div 10) @ [digitChar (n mod 10)]"
      using False by (subst showNat.simps) simp
    have ih: "digitsValue 10 (showNat (n div 10)) = n div 10"
      "CHR ''.'' \<notin> set (showNat (n div 10))" "CHR ''-'' \<notin> set (showNat (n div 10))"
      using 1 False by simp_all
    have d: "digitVal (digitChar (n mod 10)) = Some (n mod 10)"
      "digitChar (n mod 10) \<noteq> CHR ''.''" "digitChar (n mod 10) \<noteq> CHR ''-''"
      using digitChar_cases [of "n mod 10"] by simp_all
    have "digitsValue 10 (showNat n) = 10 * (n div 10) + n mod 10"
      unfolding s digitsValue_snoc ih d by simp
    then show ?thesis
      using ih d s by auto
  qed
qed

lemma readFixed_unsigned:
  "hd s \<noteq> CHR ''-'' \<Longrightarrow>
   readFixed s =
     real_of_int (digitsValue 10 (takeWhile (\<lambda>c. c \<noteq> CHR ''.'') s @
                                  drop 1 (dropWhile (\<lambda>c. c \<noteq> CHR ''.'') s)))
     / 10 ^ length (drop 1 (dropWhile (\<lambda>c. c \<noteq> CHR ''.'') s))"
  by (simp add: readFixed_def Let_def)

lemma readFixed_signed:
  "readFixed (CHR ''-'' # s) =
     - real_of_int (digitsValue 10 (takeWhile (\<lambda>c. c \<noteq> CHR ''.'') s @
                                    drop 1 (dropWhile (\<lambda>c. c \<noteq> CHR ''.'') s)))
     / 10 ^ length (drop 1 (dropWhile (\<lambda>c. c \<noteq> CHR ''.'') s))"
  by (simp add: readFixed_def Let_def)

lemma readFixed_fixedDigits:
  assumes "0 \<le> n"
  shows "readFixed (fixedDigits f n) = real_of_int n / 10 ^ f"
    and "readFixed (CHR ''-'' # fixedDigits f n) = - real_of_int n / 10 ^ f"
proof -
  define m where "m = showNat n"
  have m: "digitsValue 10 m = n" "m \<noteq> []" "CHR ''.'' \<notin> set m" "CHR ''-'' \<notin> set m"
    using showNat_value [OF assms] by (simp_all add: m_def)
  define z where "z = replicate (f + 1 - length m) (CHR ''0'') @ m"
  have zv: "digitsValue 10 z = n"
    unfolding z_def digitsValue_zeros by (rule m(1))
  have zs: "CHR ''.'' \<notin> set z" "CHR ''-'' \<notin> set z"
    using m by (auto simp: z_def)
  have zl: "f < length z"
    by (auto simp: z_def)
  define a where "a = take (length z - f) z"
  define b where "b = drop (length z - f) z"
  have ab: "a @ b = z" "length b = f" "a \<noteq> []"
    using zl by (auto simp: a_def b_def)
  have an: "CHR ''.'' \<notin> set a" "CHR ''-'' \<notin> set a"
    using zs ab(1) by auto
  have ha: "hd a \<noteq> CHR ''-''"
    using an(2) ab(3) by (cases a) auto
  have tk: "takeWhile (\<lambda>c. c \<noteq> CHR ''.'') (a @ CHR ''.'' # b) = a"
    by (subst takeWhile_append2) (use an(1) in auto)
  have dr: "dropWhile (\<lambda>c. c \<noteq> CHR ''.'') (a @ CHR ''.'' # b) = CHR ''.'' # b"
    by (subst dropWhile_append2) (use an(1) in auto)
  have hm: "hd m \<noteq> CHR ''-''"
    using m(2,4) by (cases m) auto
  have fd: "fixedDigits f n = (if f = 0 then m else a @ CHR ''.'' # b)"
    by (simp add: fixedDigits_def Let_def m_def z_def a_def b_def)
  have t0: "takeWhile (\<lambda>c. c \<noteq> CHR ''.'') m = m"
    and d0: "dropWhile (\<lambda>c. c \<noteq> CHR ''.'') m = []"
    using m(3) by auto
  have hz: "hd (a @ CHR ''.'' # b) \<noteq> CHR ''-''"
    using ha ab(3) by simp
  show "readFixed (fixedDigits f n) = real_of_int n / 10 ^ f"
  proof (cases "f = 0")
    case True
    have "readFixed m = real_of_int n"
      unfolding readFixed_unsigned [OF hm] t0 d0 using m(1) by simp
    then show ?thesis
      using True fd by simp
  next
    case False
    have "readFixed (a @ CHR ''.'' # b) = real_of_int n / 10 ^ f"
      unfolding readFixed_unsigned [OF hz] tk dr using ab zv by simp
    then show ?thesis
      using False fd by simp
  qed
  show "readFixed (CHR ''-'' # fixedDigits f n) = - real_of_int n / 10 ^ f"
  proof (cases "f = 0")
    case True
    have "readFixed (CHR ''-'' # m) = - real_of_int n"
      unfolding readFixed_signed t0 d0 using m(1) by simp
    then show ?thesis
      using True fd by simp
  next
    case False
    have "readFixed (CHR ''-'' # a @ CHR ''.'' # b) = - real_of_int n / 10 ^ f"
      unfolding readFixed_signed tk dr using ab zv by simp
    then show ?thesis
      using False fd by simp
  qed
qed

lemma readFixed_toFixed:
  assumes "\<bar>x\<bar> < 10 ^ 21"
  shows "readFixed (toFixed f x) = fixedValue f x"
proof -
  have n: "0 \<le> roundScaled f x"
    by (rule roundScaled_nonneg)
  show ?thesis
    using assms readFixed_fixedDigits [OF n, of f]
    by (simp add: toFixed_def fixedValue_def)
qed

lemma digitChar_not_space:
  assumes "0 \<le> d" and "d < 10"
  shows "digitChar d \<noteq> CHR '' ''"
proof -
  from assms have "d = 0 \<or> d = 1 \<or> d = 2 \<or> d = 3 \<or> d = 4 \<or> d = 5 \<or> d = 6 \<or> d = 7 \<or> d = 8 \<or> d = 9"
    by arith
  then show ?thesis
    by (elim disjE) (simp_all add: digitChar_def)
qed

lemma showNat_no_space: "0 \<le> n \<Longrightarrow> CHR '' '' \<notin> set (showNat n)"
proof (induction n rule: showNat.induct)
  case (1 n)
  show ?case
  proof (cases "n < 10")
    case True
    then show ?thesis
      using 1(2) digitChar_not_space [of n] by (subst showNat.simps) simp
  next
    case False
    then have "CHR '' '' \<notin> set (showNat (n div 10))"
      using 1 by simp
    moreover have "digitChar (n mod 10) \<noteq> CHR '' ''"
      by (rule digitChar_not_space) simp_all
    ultimately show ?thesis
      using False by (subst showNat.simps) auto
  qed
qed

lemma fixedDigits_no_space:
  assumes "0 \<le> n"
  shows "CHR '' '' \<notin> set (fixedDigits f n)"
proof (cases "f = 0")
  case True
  then show ?thesis
    using showNat_no_space [OF assms] by (simp add: fixedDigits_def)
next
  case False
  define z where "z = replicate (f + 1 - length (showNat n)) (CHR ''0'') @ showNat n"
  have z: "CHR '' '' \<notin> set z"
    using showNat_no_space [OF assms] by (auto simp: z_def)
  have "set (take (length z - f) z) \<subseteq> set z" "set (drop (length z - f) z) \<subseteq> set z"
    by (rule set_take_subset, rule set_drop_subset)
  then have "CHR '' '' \<notin> set (take (length z - f) z @ ''.'' @ drop (length z - f) z)"
    using z by auto
  moreover have "fixedDigits f n = take (length z - f) z @ ''.'' @ drop (length z - f) z"
    using False unfolding fixedDigits_def Let_def z_def by (simp only: if_False)
  ultimately show ?thesis by simp
qed

lemma toFixed_no_space:
  assumes "\<bar>x\<bar> < 10 ^ 21"
  shows "CHR '' '' \<notin> set (toFixed f x)"
  using assms fixedDigits_no_space [of "roundScaled f x" f]
  by (simp add: toFixed_def roundScaled_def)

lemma splitOn_nonempty: "splitOn c s \<noteq> []"
  by (induction s) (simp_all split: list.splits)

lemma splitOn_no_sep: "c \<notin> set xs \<Longrightarrow> splitOn c xs = [xs]"
  by (induction xs) auto

lemma splitOn_append_sep: "c \<notin> set xs \<Longrightarrow> splitOn c (xs @ c # ys) = xs # splitOn c ys"
  by (induction xs) auto

lemma last_splitOn_nonempty:
  "s \<noteq> [] \<Longrightarrow> last s \<noteq> c \<Longrightarrow> last (splitOn c s) \<noteq> []"
proof (induction s)
  case Nil
  then show ?case by simp
next
  case (Cons x xs)
  show ?case
  proof (cases "xs = []")
    case True
    then show ?thesis using Cons.prems by simp
  next
    case False
    then have "last (splitOn c xs) \<noteq> []"
      using Cons by simp
    then show ?thesis
      using splitOn_nonempty [of c xs] by (auto split: list.splits)
  qed
qed

subsection \<open>Splitting at white space gives the tokens\<close>

lemma wordsOf_Nil: "wordsOf [] = []"
  by (simp add: wordsOf.simps)

lemma wordsOf_dropWhile: "wordsOf (dropWhile isSpace s) = wordsOf s"
  by (subst (1 2) wordsOf.simps) simp

lemma wordsOf_space: "isSpace c \<Longrightarrow> wordsOf (c # s) = wordsOf s"
  using wordsOf_dropWhile [of "c # s"] wordsOf_dropWhile [of s] by simp

lemma wordsOf_word:
  "\<not> isSpace c \<Longrightarrow>
   wordsOf (c # cs) = (c # takeWhile (\<lambda>x. \<not> isSpace x) cs) # wordsOf (dropWhile (\<lambda>x. \<not> isSpace x) cs)"
  by (subst wordsOf.simps) simp

lemma wordsOf_all_space: "\<forall>x\<in>set ws. isSpace x \<Longrightarrow> wordsOf ws = []"
  by (induction ws) (simp_all add: wordsOf_Nil wordsOf_space)

lemma wordsOf_append_space:
  "\<forall>x\<in>set ws. isSpace x \<Longrightarrow> wordsOf (s @ ws) = wordsOf s"
proof (induction s rule: length_induct)
  case (1 s)
  show ?case
  proof (cases s)
    case Nil
    then show ?thesis using 1(2) by (simp add: wordsOf_Nil wordsOf_all_space)
  next
    case (Cons c cs)
    show ?thesis
    proof (cases "isSpace c")
      case True
      then show ?thesis using 1 Cons by (simp add: wordsOf_space)
    next
      case False
      show ?thesis
      proof (cases "\<forall>x\<in>set cs. \<not> isSpace x")
        case True
        then have t1: "takeWhile (\<lambda>x. \<not> isSpace x) (cs @ ws) = cs"
          using 1(2) by (cases ws) simp_all
        have d1: "dropWhile (\<lambda>x. \<not> isSpace x) (cs @ ws) = ws"
          using True 1(2) by (cases ws) simp_all
        have t2: "takeWhile (\<lambda>x. \<not> isSpace x) cs = cs"
          and d2: "dropWhile (\<lambda>x. \<not> isSpace x) cs = []"
          using True by simp_all
        have "wordsOf (c # cs @ ws) = [c # cs]"
          unfolding wordsOf_word [OF False] t1 d1 wordsOf_all_space [OF 1(2)] ..
        moreover have "wordsOf (c # cs) = [c # cs]"
          unfolding wordsOf_word [OF False] t2 d2 wordsOf_Nil ..
        ultimately show ?thesis
          using Cons by simp
      next
        case False
        then obtain x where x: "x \<in> set cs" "isSpace x" by auto
        then have t: "takeWhile (\<lambda>x. \<not> isSpace x) (cs @ ws) = takeWhile (\<lambda>x. \<not> isSpace x) cs"
          by simp
        have d: "dropWhile (\<lambda>x. \<not> isSpace x) (cs @ ws) = dropWhile (\<lambda>x. \<not> isSpace x) cs @ ws"
          using x by simp
        have "length (dropWhile (\<lambda>x. \<not> isSpace x) cs) < length s"
          using Cons length_dropWhile_le [of "\<lambda>x. \<not> isSpace x" cs] by simp
        then have "wordsOf (dropWhile (\<lambda>x. \<not> isSpace x) cs @ ws) = wordsOf (dropWhile (\<lambda>x. \<not> isSpace x) cs)"
          using 1 by simp
        then show ?thesis
          using \<open>\<not> isSpace c\<close> Cons t d by (simp add: wordsOf_word)
      qed
    qed
  qed
qed

lemma trim_decompose:
  "\<exists>ls ts. s = ls @ trim s @ ts \<and> (\<forall>x\<in>set ls. isSpace x) \<and> (\<forall>x\<in>set ts. isSpace x)"
proof -
  let ?d = "dropWhile isSpace s"
  have "s = takeWhile isSpace s @ ?d" by simp
  moreover have "rev ?d = takeWhile isSpace (rev ?d) @ dropWhile isSpace (rev ?d)" by simp
  then have "?d = rev (dropWhile isSpace (rev ?d)) @ rev (takeWhile isSpace (rev ?d))"
    by (metis rev_append rev_rev_ident)
  ultimately have "s = takeWhile isSpace s @ trim s @ rev (takeWhile isSpace (rev ?d))"
    by (simp add: trim_def)
  moreover have "\<forall>x\<in>set (takeWhile isSpace s). isSpace x"
    by (auto dest: set_takeWhileD)
  moreover have "\<forall>x\<in>set (rev (takeWhile isSpace (rev ?d))). isSpace x"
    by (auto dest: set_takeWhileD)
  ultimately show ?thesis by blast
qed

lemma wordsOf_trim: "wordsOf (trim s) = wordsOf s"
proof -
  obtain ls ts where s: "s = ls @ trim s @ ts"
    and ls: "\<forall>x\<in>set ls. isSpace x" and ts: "\<forall>x\<in>set ts. isSpace x"
    using trim_decompose by blast
  have "wordsOf (ls @ u) = wordsOf u" for u
    using ls by (induction ls) (simp_all add: wordsOf_space)
  then have "wordsOf s = wordsOf (trim s @ ts)"
    using s by metis
  then show ?thesis
    using wordsOf_append_space [OF ts] by simp
qed

lemma trim_ends:
  "trim s \<noteq> [] \<Longrightarrow> \<not> isSpace (hd (trim s)) \<and> \<not> isSpace (last (trim s))"
proof -
  assume n: "trim s \<noteq> []"
  let ?d = "dropWhile isSpace s"
  let ?e = "dropWhile isSpace (rev ?d)"
  have e: "?e \<noteq> []" using n by (simp add: trim_def)
  then have "\<not> isSpace (hd ?e)" by (rule hd_dropWhile)
  then have l: "\<not> isSpace (last (trim s))"
    using e by (simp add: trim_def last_rev)
  have "rev ?d = takeWhile isSpace (rev ?d) @ ?e" by simp
  then have "last (rev ?d) = last ?e"
    using e by (metis last_appendR)
  moreover have d: "?d \<noteq> []"
  proof
    assume a: "?d = []"
    have "?e = []" unfolding a by simp
    with e show False by simp
  qed
  ultimately have "last ?e = hd ?d"
    by (simp add: last_rev)
  moreover have "\<not> isSpace (hd ?d)" using d by (rule hd_dropWhile)
  ultimately have "\<not> isSpace (hd (trim s))"
    using e by (simp add: trim_def hd_rev)
  with l show ?thesis by simp
qed

lemma splitWs_clean:
  "t \<noteq> [] \<Longrightarrow> \<not> isSpace (hd t) \<Longrightarrow> \<not> isSpace (last t) \<Longrightarrow> splitWs t = wordsOf t"
proof (induction t rule: splitWs.induct)
  case (1 s)
  obtain c cs where s: "s = c # cs" using 1(2) by (cases s) auto
  have c: "\<not> isSpace c" using 1(3) s by simp
  show ?case
  proof (cases "dropWhile (\<lambda>c. \<not> isSpace c) s")
    case Nil
    then have a: "\<forall>x\<in>set s. \<not> isSpace x" by simp
    then have t2: "takeWhile (\<lambda>x. \<not> isSpace x) cs = cs"
      and d2: "dropWhile (\<lambda>x. \<not> isSpace x) cs = []"
      using s by simp_all
    have "wordsOf (c # cs) = [c # cs]"
      unfolding wordsOf_word [OF c] t2 d2 wordsOf_Nil ..
    then have "wordsOf s = [s]"
      using s by simp
    moreover have "splitWs s = [s]"
      by (subst splitWs.simps) (simp only: Nil list.case)
    ultimately show ?thesis by simp
  next
    case (Cons r rs)
    have r: "isSpace r"
      using hd_dropWhile [of "\<lambda>c. \<not> isSpace c" s] Cons by simp
    let ?rest = "dropWhile isSpace rs"
    have dcs: "dropWhile (\<lambda>x. \<not> isSpace x) cs = r # rs"
      using Cons s c by simp
    have tk: "takeWhile (\<lambda>c. \<not> isSpace c) s = c # takeWhile (\<lambda>x. \<not> isSpace x) cs"
      using s c by simp
    have sp: "s = takeWhile (\<lambda>c. \<not> isSpace c) s @ r # rs"
      using Cons by (metis takeWhile_dropWhile_id)
    then have ls: "last s = last (r # rs)"
      by (metis last_appendR list.distinct(1))
    have rest_ne: "?rest \<noteq> []"
    proof
      assume "?rest = []"
      then have "\<forall>x\<in>set rs. isSpace x" by simp
      then have "isSpace (last (r # rs))" using r by (cases rs) auto
      then show False using ls 1(4) by simp
    qed
    have "rs = takeWhile isSpace rs @ ?rest" by simp
    then have "last rs = last ?rest"
      using rest_ne by (metis last_appendR)
    moreover have "rs \<noteq> []" using rest_ne by auto
    ultimately have "last ?rest = last s"
      using ls by simp
    then have "splitWs ?rest = wordsOf ?rest"
      using "1.IH" [OF Cons rest_ne] hd_dropWhile [OF rest_ne] 1(4) by simp
    then have "splitWs s = takeWhile (\<lambda>c. \<not> isSpace c) s # wordsOf ?rest"
      using Cons by (subst splitWs.simps) simp
    moreover have "wordsOf s = (c # takeWhile (\<lambda>x. \<not> isSpace x) cs) # wordsOf (r # rs)"
      using s c dcs by (simp add: wordsOf_word)
    moreover have "wordsOf (r # rs) = wordsOf ?rest"
      using r by (simp add: wordsOf_space wordsOf_dropWhile)
    ultimately show ?thesis using tk by simp
  qed
qed

lemma splitWs_trim:
  "splitWs (trim s) = (if wordsOf s = [] then [[]] else wordsOf s)"
proof (cases "trim s = []")
  case True
  then have "wordsOf s = []"
    using wordsOf_trim [of s] by (simp add: wordsOf_Nil)
  moreover have "splitWs [] = [[]]"
    by (subst splitWs.simps) simp
  ultimately show ?thesis using True by simp
next
  case False
  then have "splitWs (trim s) = wordsOf (trim s)"
    using trim_ends [OF False] by (simp add: splitWs_clean)
  moreover obtain c cs where "trim s = c # cs" using False by (cases "trim s") auto
  then have "wordsOf (trim s) \<noteq> []"
    using trim_ends [OF False] by (simp add: wordsOf_word)
  ultimately show ?thesis by (simp add: wordsOf_trim)
qed

lemma length_splitWs_trim: "3 \<le> length (splitWs (trim l)) \<longleftrightarrow> 3 \<le> length (wordsOf l)"
  by (simp add: splitWs_trim)

section \<open>Rounding to binary64: properties\<close>

text \<open>
  \<open>pow2\<close> is the power of two, \<open>expo\<close> brackets a number between two consecutive powers,
  and \<open>roundEven\<close> is within one half of its argument. So \<open>fl\<close> keeps every integer below
  \<open>2^53\<close> in magnitude, keeps a result within the integer bounds of its argument, and is
  within half a unit in the last place of its argument.
\<close>

lemma pow2_powr: "pow2 k = 2 powr real_of_int k"
proof (cases "0 \<le> k")
  case True
  then have "2 powr real_of_int k = 2 powr real (nat k)" by simp
  also have "\<dots> = 2 ^ nat k" by (simp add: powr_realpow)
  finally show ?thesis using True by (simp add: pow2_def)
next
  case False
  then have "2 powr real_of_int k = 2 powr (- real (nat (- k)))" by simp
  also have "\<dots> = 1 / 2 powr real (nat (- k))" by (simp add: powr_minus_divide)
  also have "\<dots> = 1 / 2 ^ nat (- k)" by (simp add: powr_realpow)
  finally show ?thesis using False by (simp add: pow2_def)
qed

lemma pow2_pos: "0 < pow2 k"
  by (simp add: pow2_powr)

lemma pow2_add: "pow2 (a + b) = pow2 a * pow2 b"
  by (simp add: pow2_powr powr_add)

lemma pow2_diff: "pow2 (a - b) = pow2 a / pow2 b"
  by (simp add: pow2_powr powr_diff)

lemma pow2_le_iff: "pow2 a \<le> pow2 b \<longleftrightarrow> a \<le> b"
  by (simp add: pow2_powr)

lemma pow2_less_iff: "pow2 a < pow2 b \<longleftrightarrow> a < b"
  by (simp add: pow2_powr)

lemma pow2_nat: "0 \<le> k \<Longrightarrow> pow2 k = 2 ^ nat k"
  by (simp add: pow2_def)

lemma pow2_int: "pow2 (int n) = 2 ^ n"
  by (simp add: pow2_def)

lemma ilog2_bounds:
  "1 \<le> n \<Longrightarrow> 0 \<le> ilog2 n \<and> 2 ^ nat (ilog2 n) \<le> n \<and> n < 2 ^ nat (ilog2 n + 1)"
proof (induction n rule: ilog2.induct)
  case (1 n)
  show ?case
  proof (cases "n < 2")
    case True
    then have "ilog2 n = 0" by (subst ilog2.simps) simp
    then show ?thesis using True 1(2) by simp
  next
    case False
    then have e: "ilog2 n = 1 + ilog2 (n div 2)" by (subst ilog2.simps) simp
    have ih: "0 \<le> ilog2 (n div 2)" "2 ^ nat (ilog2 (n div 2)) \<le> n div 2"
      "n div 2 < 2 ^ nat (ilog2 (n div 2) + 1)"
      using 1(1) False by simp_all
    have n1: "nat (1 + ilog2 (n div 2)) = Suc (nat (ilog2 (n div 2)))"
      using ih(1) by simp
    have n2: "nat (1 + ilog2 (n div 2) + 1) = Suc (nat (ilog2 (n div 2) + 1))"
      using ih(1) by simp
    have "2 * 2 ^ nat (ilog2 (n div 2)) \<le> n"
      using ih(2) by linarith
    moreover have "n < 2 * 2 ^ nat (ilog2 (n div 2) + 1)"
      using ih(3) by linarith
    ultimately show ?thesis
      using ih(1) unfolding e n1 n2 by simp
  qed
qed

lemma ilog2_real_bounds:
  assumes "1 \<le> n"
  shows "0 \<le> ilog2 n" and "pow2 (ilog2 n) \<le> real_of_int n"
    and "real_of_int n + 1 \<le> pow2 (ilog2 n + 1)"
proof -
  note b = ilog2_bounds [OF assms]
  show k: "0 \<le> ilog2 n" using b by simp
  have "real_of_int (2 ^ nat (ilog2 n)) \<le> real_of_int n"
    by (rule iffD2 [OF of_int_le_iff]) (use b in simp)
  then show "pow2 (ilog2 n) \<le> real_of_int n"
    using k by (simp add: pow2_nat)
  have "n + 1 \<le> 2 ^ nat (ilog2 n + 1)" using b by simp
  then have "real_of_int (n + 1) \<le> real_of_int (2 ^ nat (ilog2 n + 1))"
    by (rule iffD2 [OF of_int_le_iff])
  then show "real_of_int n + 1 \<le> pow2 (ilog2 n + 1)"
    using k by (simp add: pow2_nat)
qed

lemma expo_bounds:
  assumes "x \<noteq> 0"
  shows "pow2 (expo x) \<le> \<bar>x\<bar> \<and> \<bar>x\<bar> < pow2 (expo x + 1)"
proof (cases "1 \<le> \<bar>x\<bar>")
  case True
  define n where "n = \<lfloor>\<bar>x\<bar>\<rfloor>"
  have n: "1 \<le> n" using True by (simp add: n_def le_floor_iff)
  have e: "expo x = ilog2 n" using True by (simp add: expo_def n_def)
  note b = ilog2_real_bounds [OF n]
  have f: "real_of_int n \<le> \<bar>x\<bar>" "\<bar>x\<bar> < real_of_int n + 1"
    unfolding n_def by linarith+
  have "pow2 (ilog2 n) \<le> \<bar>x\<bar>" using b(2) f(1) by linarith
  moreover have "\<bar>x\<bar> < pow2 (ilog2 n + 1)" using b(3) f(2) by linarith
  ultimately show ?thesis using e by simp
next
  case False
  define a where "a = \<bar>x\<bar>"
  have a: "0 < a" "a < 1" using assms False by (simp_all add: a_def)
  define n where "n = \<lfloor>1 / a\<rfloor>"
  define k where "k = ilog2 n"
  have n: "1 \<le> n" using a by (simp add: n_def le_floor_iff)
  note b = ilog2_real_bounds [OF n, folded k_def]
  have f: "real_of_int n \<le> 1 / a" "1 / a < real_of_int n + 1"
    unfolding n_def by linarith+
  have l: "pow2 k \<le> 1 / a" using b(2) f(1) by linarith
  have u: "1 / a < pow2 (k + 1)" using b(3) f(2) by linarith
  have la: "a * pow2 k \<le> 1"
    using l a by (simp add: field_simps)
  have ua: "1 < a * pow2 (k + 1)"
    using u a by (simp add: field_simps)
  have m1: "pow2 (- k) * pow2 k = 1" "pow2 (- (k + 1)) * pow2 (k + 1) = 1"
    using pow2_add [of "- k" k] pow2_add [of "- (k + 1)" "k + 1"] by (simp_all add: pow2_def)
  have ex: "expo x = (if a * pow2 k = 1 then - k else - (k + 1))"
    using False by (simp add: expo_def a_def n_def k_def Let_def)
  have "pow2 (- (k + 1)) * pow2 (k + 1) < a * pow2 (k + 1)"
    using ua m1(2) by simp
  then have low: "pow2 (- (k + 1)) < a"
    using pow2_pos [of "k + 1"] by (simp only: mult_less_cancel_right_pos)
  have "a * pow2 k \<le> pow2 (- k) * pow2 k"
    using la m1(1) by simp
  then have up: "a \<le> pow2 (- k)"
    using pow2_pos [of k] by (simp only: mult_le_cancel_right_pos)
  show ?thesis
  proof (cases "a * pow2 k = 1")
    case True
    then have "a * pow2 k = pow2 (- k) * pow2 k" using m1(1) by simp
    then have "a = pow2 (- k)"
      using pow2_pos [of k] by simp
    moreover have "pow2 (- k) < pow2 (- k + 1)" by (simp add: pow2_less_iff)
    ultimately show ?thesis using True ex by (simp add: a_def)
  next
    case False
    then have "a \<noteq> pow2 (- k)" using m1(1) by auto
    then have "a < pow2 (- k)" using up by simp
    then show ?thesis using False ex low by (simp add: a_def)
  qed
qed

lemma roundEven_cases: "roundEven y = \<lfloor>y\<rfloor> \<or> roundEven y = \<lfloor>y\<rfloor> + 1"
  by (simp add: roundEven_def Let_def)

lemma roundEven_near: "\<bar>real_of_int (roundEven y) - y\<bar> \<le> 1 / 2"
proof -
  have "real_of_int \<lfloor>y\<rfloor> \<le> y" "y < real_of_int \<lfloor>y\<rfloor> + 1" by linarith+
  then show ?thesis
    by (auto simp: roundEven_def Let_def abs_le_iff split: if_splits)
qed

lemma roundEven_of_int: "roundEven (of_int m) = m"
  by (simp add: roundEven_def)

lemma roundEven_le: "y \<le> of_int m \<Longrightarrow> roundEven y \<le> m"
proof -
  assume a: "y \<le> of_int m"
  show ?thesis
  proof (cases "y = of_int m")
    case True
    then show ?thesis by (simp add: roundEven_of_int)
  next
    case False
    then have "y < of_int m" using a by simp
    then have "\<lfloor>y\<rfloor> < m" by (simp add: floor_less_iff)
    then show ?thesis using roundEven_cases [of y] by auto
  qed
qed

lemma roundEven_ge: "of_int m \<le> y \<Longrightarrow> m \<le> roundEven y"
proof -
  assume "of_int m \<le> y"
  then have "m \<le> \<lfloor>y\<rfloor>" by (simp add: le_floor_iff)
  then show ?thesis using roundEven_cases [of y] by auto
qed

lemma fl_unfold:
  assumes "x \<noteq> 0"
  shows "fl x =
     (if 1024 \<le> expo (real_of_int (roundEven (x / pow2 (max (expo x) (- 1022) - 52))) *
                        pow2 (max (expo x) (- 1022) - 52))
      then (if 0 < x then PosInf else NegInf)
      else Fin (real_of_int (roundEven (x / pow2 (max (expo x) (- 1022) - 52))) *
                pow2 (max (expo x) (- 1022) - 52)))"
  using assms by (simp add: fl_def Let_def)

lemma pow2_53: "pow2 53 = 2 ^ 53" and pow2_1024: "pow2 1024 = 2 ^ 1024"
  by (simp_all add: pow2_def)

lemma expo_less:
  assumes "x \<noteq> 0" and "\<bar>x\<bar> < pow2 (m + 1)"
  shows "expo x \<le> m"
proof -
  have "pow2 (expo x) < pow2 (m + 1)"
    using expo_bounds [OF assms(1)] assms(2) by linarith
  then show ?thesis by (simp add: pow2_less_iff)
qed

lemma expo_zero: "expo 0 = - 1"
  by (simp add: expo_def ilog2.simps)

lemma expo_small:
  assumes "\<bar>r\<bar> < pow2 1024"
  shows "\<not> 1024 \<le> expo r"
proof (cases "r = 0")
  case True
  then show ?thesis by (simp add: expo_zero)
next
  case False
  then have "expo r \<le> 1023" using assms by (intro expo_less) simp_all
  then show ?thesis by simp
qed

lemma expo_overflow: "r \<noteq> 0 \<Longrightarrow> 1024 \<le> expo r \<longleftrightarrow> pow2 1024 \<le> \<bar>r\<bar>"
proof
  assume "r \<noteq> 0" and "1024 \<le> expo r"
  then have "pow2 1024 \<le> pow2 (expo r)" by (simp add: pow2_le_iff)
  then show "pow2 1024 \<le> \<bar>r\<bar>" using expo_bounds [OF \<open>r \<noteq> 0\<close>] by linarith
next
  assume "r \<noteq> 0" and "pow2 1024 \<le> \<bar>r\<bar>"
  then have "pow2 1024 < pow2 (expo r + 1)" using expo_bounds [of r] by linarith
  then show "1024 \<le> expo r" by (simp add: pow2_less_iff)
qed

lemma quantum_inverse:
  assumes "e \<le> 52"
  shows "1 / pow2 (e - 52) = real_of_int (2 ^ nat (52 - e))"
    and "pow2 (e - 52) * real_of_int (2 ^ nat (52 - e)) = 1"
proof -
  have "pow2 (e - 52) * pow2 (52 - e) = 1"
    using pow2_add [of "e - 52" "52 - e"] by (simp add: pow2_def)
  moreover have "pow2 (52 - e) = real_of_int (2 ^ nat (52 - e))"
    using assms by (simp add: pow2_nat)
  ultimately show "pow2 (e - 52) * real_of_int (2 ^ nat (52 - e)) = 1" by simp
  then show "1 / pow2 (e - 52) = real_of_int (2 ^ nat (52 - e))"
    using pow2_pos [of "e - 52"] by (simp add: field_simps)
qed

lemma fl_bounded:
  assumes "0 \<le> x" and "x \<le> real_of_int M" and "M < 2 ^ 53"
  shows "\<exists>r. fl x = Fin r \<and> 0 \<le> r \<and> r \<le> real_of_int M"
proof (cases "x = 0")
  case True
  then show ?thesis using assms by (simp add: fl_def)
next
  case False
  define e where "e = max (expo x) (- 1022)"
  define q where "q = pow2 (e - 52)"
  define k where "k = nat (52 - e)"
  define r where "r = real_of_int (roundEven (x / q)) * q"
  have "real_of_int M < pow2 53"
    using assms(3) unfolding pow2_53 by (metis of_int_less_iff of_int_numeral of_int_power)
  then have "\<bar>x\<bar> < pow2 (52 + 1)" using assms by simp
  then have "expo x \<le> 52" using False by (intro expo_less) simp_all
  then have e: "e \<le> 52" by (simp add: e_def)
  have q: "0 < q" "1 / q = real_of_int (2 ^ k)" "q * real_of_int (2 ^ k) = 1"
    using quantum_inverse [OF e] pow2_pos by (simp_all add: q_def k_def)
  have "x / q = x * (1 / q)" by simp
  then have y: "x / q = x * real_of_int (2 ^ k)"
    unfolding q(2) .
  have "x * real_of_int (2 ^ k) \<le> real_of_int M * real_of_int (2 ^ k)"
    using assms(2) by (intro mult_right_mono) simp_all
  then have "x / q \<le> real_of_int (M * 2 ^ k)"
    using y by simp
  then have "roundEven (x / q) \<le> M * 2 ^ k"
    by (rule roundEven_le)
  then have "real_of_int (roundEven (x / q)) \<le> real_of_int (M * 2 ^ k)"
    by (rule iffD2 [OF of_int_le_iff])
  then have "real_of_int (roundEven (x / q)) * q \<le> real_of_int (M * 2 ^ k) * q"
    using q(1) by (intro mult_right_mono) simp_all
  also have "\<dots> = real_of_int M * (q * real_of_int (2 ^ k))"
    by simp
  finally have up: "r \<le> real_of_int M"
    unfolding q(3) r_def by simp
  have "real_of_int 0 \<le> x / q" using assms(1) q(1) by simp
  then have "0 \<le> roundEven (x / q)" by (rule roundEven_ge)
  then have lo: "0 \<le> r" using q(1) by (simp add: r_def)
  have "r < pow2 1024"
    using up \<open>real_of_int M < pow2 53\<close> pow2_less_iff [of 53 1024] by linarith
  then have "\<not> 1024 \<le> expo r" using lo by (intro expo_small) simp
  then have "fl x = Fin r"
    unfolding fl_unfold [OF False] r_def q_def e_def by simp
  then show ?thesis using lo up by blast
qed

lemma fl_of_int:
  assumes "\<bar>n\<bar> < 2 ^ 53"
  shows "fl (real_of_int n) = Fin (real_of_int n)"
proof (cases "n = 0")
  case True
  then show ?thesis by (simp add: fl_def)
next
  case False
  define x where "x = real_of_int n"
  define e where "e = max (expo x) (- 1022)"
  define q where "q = pow2 (e - 52)"
  define k where "k = nat (52 - e)"
  have x0: "x \<noteq> 0" using False by (simp add: x_def)
  have "real_of_int \<bar>n\<bar> < real_of_int (2 ^ 53)"
    using assms by (rule iffD2 [OF of_int_less_iff])
  then have b: "\<bar>x\<bar> < pow2 (52 + 1)"
    unfolding x_def by (simp add: pow2_def)
  then have "expo x \<le> 52" using x0 by (intro expo_less)
  then have e: "e \<le> 52" by (simp add: e_def)
  have q: "0 < q" "1 / q = real_of_int (2 ^ k)" "q * real_of_int (2 ^ k) = 1"
    using quantum_inverse [OF e] pow2_pos by (simp_all add: q_def k_def)
  have "x / q = x * (1 / q)" by simp
  then have "x / q = x * real_of_int (2 ^ k)"
    unfolding q(2) .
  then have "x / q = real_of_int (n * 2 ^ k)"
    by (simp add: x_def)
  then have "roundEven (x / q) = n * 2 ^ k"
    by (simp only: roundEven_of_int)
  then have "real_of_int (roundEven (x / q)) * q = real_of_int n * (q * real_of_int (2 ^ k))"
    by simp
  then have r: "real_of_int (roundEven (x / q)) * q = x"
    unfolding q(3) x_def by simp
  have "\<bar>x\<bar> < pow2 1024"
    using b pow2_less_iff [of 53 1024] by simp
  then have "\<not> 1024 \<le> expo x" by (rule expo_small)
  then have "fl x = Fin x"
    unfolding fl_unfold [OF x0] using r by (simp add: q_def e_def)
  then show ?thesis by (simp add: x_def)
qed

lemma fl_near:
  assumes "x \<noteq> 0" and "\<bar>x\<bar> < pow2 (m + 1)" and "- 1022 \<le> m" and "fl x = Fin r"
  shows "\<bar>r - x\<bar> \<le> pow2 (m - 53)"
proof -
  define e where "e = max (expo x) (- 1022)"
  define q where "q = pow2 (e - 52)"
  have e: "e \<le> m"
    using expo_less [OF assms(1,2)] assms(3) by (simp add: e_def)
  have q: "0 < q" by (simp add: q_def pow2_pos)
  have r: "r = real_of_int (roundEven (x / q)) * q"
    using assms(4) unfolding fl_unfold [OF assms(1)] q_def e_def by (simp split: if_splits)
  have "r - x = (real_of_int (roundEven (x / q)) - x / q) * q"
    using q by (simp add: r field_simps)
  then have "\<bar>r - x\<bar> = \<bar>real_of_int (roundEven (x / q)) - x / q\<bar> * q"
    using q by (simp add: abs_mult)
  also have "\<dots> \<le> (1 / 2) * q"
    using roundEven_near [of "x / q"] q by (intro mult_right_mono) simp_all
  also have "\<dots> = pow2 (e - 53)"
    using pow2_add [of "e - 53" 1] by (simp add: q_def pow2_def)
  also have "\<dots> \<le> pow2 (m - 53)"
    using e by (simp add: pow2_le_iff)
  finally show ?thesis .
qed

lemma fl_nonneg:
  assumes "0 \<le> x"
  shows "fl x = PosInf \<or> (\<exists>r. fl x = Fin r \<and> 0 \<le> r)"
proof (cases "x = 0")
  case True
  then show ?thesis by (simp add: fl_def)
next
  case False
  define q where "q = pow2 (max (expo x) (- 1022) - 52)"
  have q: "0 < q" by (simp add: q_def pow2_pos)
  have "real_of_int 0 \<le> x / q" using assms q by simp
  then have "0 \<le> roundEven (x / q)" by (rule roundEven_ge)
  then have "0 \<le> real_of_int (roundEven (x / q)) * q" using q by simp
  then show ?thesis
    unfolding fl_unfold [OF False] using assms False by (simp add: q_def)
qed

text \<open>Unfolding these definitions evaluates an operation on numerals.\<close>

lemmas fl_eval =
  fl_def expo_def ilog2.simps pow2_def roundEven_def Let_def ofInt_def

subsection \<open>Results within bounds, and integers\<close>

lemma pow2_numeral:
  "pow2 1 = 2" "pow2 7 = 128" "pow2 (- 53) = 1 / 2 ^ 53" "pow2 (- 47) = 64 / 2 ^ 53"
  by (simp_all add: pow2_def)

lemma fl_bounded_near:
  assumes "0 \<le> x" and "x \<le> real_of_int M" and "M < 2 ^ 53"
    and "x < pow2 (m + 1)" and "- 1022 \<le> m"
  obtains r where "fl x = Fin r" and "0 \<le> r" and "r \<le> real_of_int M"
    and "\<bar>r - x\<bar> \<le> pow2 (m - 53)"
proof -
  obtain r where r: "fl x = Fin r" "0 \<le> r" "r \<le> real_of_int M"
    using fl_bounded [OF assms(1-3)] by blast
  have "\<bar>r - x\<bar> \<le> pow2 (m - 53)"
  proof (cases "x = 0")
    case True
    then have "r = 0" using r(1) by (simp add: fl_def)
    then show ?thesis using True pow2_pos [of "m - 53"] by simp
  next
    case False
    then show ?thesis
      using assms(1,4,5) r(1) by (intro fl_near) simp_all
  qed
  then show ?thesis using r that by blast
qed

lemma ofInt_exact: "\<bar>n\<bar> < 2 ^ 53 \<Longrightarrow> ofInt n = Fin (real_of_int n)"
  by (simp add: ofInt_def fl_of_int)

lemma jsPlus_int:
  assumes "\<bar>a + b\<bar> < 2 ^ 53"
  shows "jsPlus (Fin (real_of_int a)) (Fin (real_of_int b)) = Fin (real_of_int (a + b))"
  using fl_of_int [OF assms] by simp

lemma jsMinus_int:
  assumes "\<bar>a - b\<bar> < 2 ^ 53"
  shows "jsMinus (Fin (real_of_int a)) (Fin (real_of_int b)) = Fin (real_of_int (a - b))"
  using fl_of_int [OF assms] by simp

section \<open>CPU load tracker: properties\<close>

lemma timesTotal_exact:
  assumes "0 \<le> user t" and "0 \<le> nice t" and "0 \<le> sys t" and "0 \<le> idle t" and "0 \<le> irq t"
    and "totalTime t < 2 ^ 53"
  shows "timesTotal t = Fin (real_of_int (totalTime t))"
proof -
  have b: "\<bar>user t\<bar> < 2 ^ 53" "\<bar>nice t\<bar> < 2 ^ 53" "\<bar>sys t\<bar> < 2 ^ 53" "\<bar>idle t\<bar> < 2 ^ 53"
    "\<bar>irq t\<bar> < 2 ^ 53"
    using assms by (simp_all add: totalTime_def)
  have s0: "jsPlus (Fin 0) (Fin (real_of_int (user t))) = Fin (real_of_int (user t))"
    using jsPlus_int [of 0 "user t"] b by simp
  have s1: "jsPlus (Fin (real_of_int (user t))) (Fin (real_of_int (nice t)))
            = Fin (real_of_int (user t + nice t))"
    using assms by (intro jsPlus_int) (simp add: totalTime_def)
  have s2: "jsPlus (Fin (real_of_int (user t + nice t))) (Fin (real_of_int (sys t)))
            = Fin (real_of_int (user t + nice t + sys t))"
    using assms by (intro jsPlus_int) (simp add: totalTime_def)
  have s3: "jsPlus (Fin (real_of_int (user t + nice t + sys t))) (Fin (real_of_int (idle t)))
            = Fin (real_of_int (user t + nice t + sys t + idle t))"
    using assms by (intro jsPlus_int) (simp add: totalTime_def)
  have s4: "jsPlus (Fin (real_of_int (user t + nice t + sys t + idle t))) (Fin (real_of_int (irq t)))
            = Fin (real_of_int (user t + nice t + sys t + idle t + irq t))"
    using assms by (intro jsPlus_int) (simp add: totalTime_def)
  show ?thesis
    unfolding timesTotal_def foldl.simps ofInt_exact [OF b(1)] ofInt_exact [OF b(2)]
      ofInt_exact [OF b(3)] ofInt_exact [OF b(4)] ofInt_exact [OF b(5)] s0 s1 s2 s3 s4
      totalTime_def ..
qed

lemma cpuDiffs_exact:
  assumes "list_all2 nonDecreasing prev cur" and "list_all nonNegative prev"
    and "0 \<le> i" and "i \<le> t" and "t + grandTotal cur < 2 ^ 53"
  shows "cpuDiffs cur prev (Fin (real_of_int i)) (Fin (real_of_int t)) =
           Inr (Fin (real_of_int (i + idleDelta cur prev)), Fin (real_of_int (t + totalDelta cur prev)))
         \<and> 0 \<le> idleDelta cur prev \<and> idleDelta cur prev \<le> totalDelta cur prev"
  using assms
proof (induction prev cur arbitrary: i t rule: list_all2_induct)
  case Nil
  show ?case by (simp add: idleDelta_def totalDelta_def)
next
  case (Cons p ps c cs)
  define di where "di = idle (times c) - idle (times p)"
  define dt where "dt = totalTime (times c) - totalTime (times p)"
  have np: "0 \<le> user (times p)" "0 \<le> nice (times p)" "0 \<le> sys (times p)"
    "0 \<le> idle (times p)" "0 \<le> irq (times p)"
    using Cons.prems(1) by (simp_all add: nonNegative_def)
  have mono: "user (times p) \<le> user (times c)" "nice (times p) \<le> nice (times c)"
    "sys (times p) \<le> sys (times c)" "idle (times p) \<le> idle (times c)"
    "irq (times p) \<le> irq (times c)"
    using Cons.hyps(1) by (simp_all add: nonDecreasing_def)
  have nc: "0 \<le> user (times c)" "0 \<le> nice (times c)" "0 \<le> sys (times c)"
    "0 \<le> idle (times c)" "0 \<le> irq (times c)"
    using np mono by linarith+
  have rest: "list_all nonNegative ps"
    using Cons.prems(1) by simp
  have g: "grandTotal (c # cs) = totalTime (times c) + grandTotal cs"
    by (simp add: grandTotal_def)
  have ih: "0 \<le> idleDelta cs ps" "idleDelta cs ps \<le> totalDelta cs ps"
    "0 \<le> grandTotal cs"
  proof -
    have "0 \<le> grandTotal cs \<and> 0 \<le> idleDelta cs ps \<and> idleDelta cs ps \<le> totalDelta cs ps"
      using Cons.hyps(2) rest
    proof (induction ps cs rule: list_all2_induct)
      case Nil
      show ?case by (simp add: grandTotal_def idleDelta_def totalDelta_def)
    next
      case (Cons p ps c cs)
      then show ?case
        by (simp add: grandTotal_def idleDelta_def totalDelta_def nonDecreasing_def
            nonNegative_def totalTime_def)
    qed
    then show "0 \<le> idleDelta cs ps" "idleDelta cs ps \<le> totalDelta cs ps" "0 \<le> grandTotal cs"
      by simp_all
  qed
  have tc: "0 \<le> totalTime (times c)" "totalTime (times p) \<le> totalTime (times c)"
    "0 \<le> totalTime (times p)"
    using np nc mono by (simp_all add: totalTime_def)
  have small: "totalTime (times c) < 2 ^ 53"
    using Cons.prems(2,3,4) g ih(3) by linarith
  have d: "0 \<le> di" "di \<le> dt" "dt \<le> totalTime (times c)"
    using mono tc by (simp_all add: di_def dt_def totalTime_def)
  have ic: "\<bar>idle (times c)\<bar> < 2 ^ 53" "\<bar>idle (times p)\<bar> < 2 ^ 53"
    using nc np mono small by (simp_all add: totalTime_def)
  have e1: "timesTotal (times c) = Fin (real_of_int (totalTime (times c)))"
    using nc small by (intro timesTotal_exact)
  have e2: "timesTotal (times p) = Fin (real_of_int (totalTime (times p)))"
    using np small tc by (intro timesTotal_exact) simp_all
  have e3: "jsMinus (Fin (real_of_int (totalTime (times c)))) (Fin (real_of_int (totalTime (times p))))
            = Fin (real_of_int dt)"
    unfolding dt_def using tc small by (intro jsMinus_int) simp
  have e4: "jsMinus (Fin (real_of_int (idle (times c)))) (Fin (real_of_int (idle (times p))))
            = Fin (real_of_int di)"
    unfolding di_def using ic mono np by (intro jsMinus_int) simp
  have e5: "jsPlus (Fin (real_of_int t)) (Fin (real_of_int dt)) = Fin (real_of_int (t + dt))"
    using Cons.prems(2,3,4) d g ih(3) by (intro jsPlus_int) simp
  have e6: "jsPlus (Fin (real_of_int i)) (Fin (real_of_int di)) = Fin (real_of_int (i + di))"
    using Cons.prems(2,3,4) d g ih(3) by (intro jsPlus_int) simp
  have step: "cpuDiffs (c # cs) (p # ps) (Fin (real_of_int i)) (Fin (real_of_int t))
              = cpuDiffs cs ps (Fin (real_of_int (i + di))) (Fin (real_of_int (t + dt)))"
    unfolding cpuDiffs.simps Let_def e1 e2 ofInt_exact [OF ic(1)] ofInt_exact [OF ic(2)]
      e3 e4 e5 e6 ..
  have "cpuDiffs cs ps (Fin (real_of_int (i + di))) (Fin (real_of_int (t + dt))) =
          Inr (Fin (real_of_int (i + di + idleDelta cs ps)),
               Fin (real_of_int (t + dt + totalDelta cs ps)))
        \<and> 0 \<le> idleDelta cs ps \<and> idleDelta cs ps \<le> totalDelta cs ps"
    using Cons.prems(2,3,4) d g rest by (intro Cons.IH) simp_all
  moreover have "idleDelta (c # cs) (p # ps) = di + idleDelta cs ps"
    "totalDelta (c # cs) (p # ps) = dt + totalDelta cs ps"
    by (simp_all add: idleDelta_def totalDelta_def di_def dt_def)
  ultimately show ?case
    using step d by (simp add: add.assoc)
qed

lemma usagePercent_bounds:
  assumes "0 \<le> I" and "I \<le> T" and "0 < T"
  obtains v where "usagePercent (Fin (real_of_int I)) (Fin (real_of_int T)) = Fin v"
    and "0 \<le> v" and "v \<le> 100"
    and "\<bar>v - (1 - real_of_int I / real_of_int T) * 100\<bar> \<le> 264 / 2 ^ 53"
proof -
  define x where "x = real_of_int I / real_of_int T"
  have x1: "0 \<le> x" "x \<le> real_of_int 1"
    using assms by (simp_all add: x_def)
  then have x: "0 \<le> x" "x \<le> real_of_int 1" "x < pow2 (0 + 1)"
    by (simp_all add: pow2_numeral)
  obtain q where q: "fl x = Fin q" "0 \<le> q" "q \<le> real_of_int 1" "\<bar>q - x\<bar> \<le> pow2 (0 - 53)"
    using fl_bounded_near [OF x(1,2) _ x(3)] by auto
  have y: "0 \<le> 1 - q" "1 - q \<le> real_of_int 1" "1 - q < pow2 (0 + 1)"
    using q by (simp_all add: pow2_numeral)
  obtain s where s: "fl (1 - q) = Fin s" "0 \<le> s" "s \<le> real_of_int 1"
    "\<bar>s - (1 - q)\<bar> \<le> pow2 (0 - 53)"
    using fl_bounded_near [OF y(1,2) _ y(3)] by auto
  have z: "0 \<le> s * 100" "s * 100 \<le> real_of_int 100" "s * 100 < pow2 (6 + 1)"
    using s by (simp_all add: pow2_numeral)
  obtain v where v: "fl (s * 100) = Fin v" "0 \<le> v" "v \<le> real_of_int 100"
    "\<bar>v - s * 100\<bar> \<le> pow2 (6 - 53)"
    using fl_bounded_near [OF z(1,2) _ z(3)] by auto
  have T: "real_of_int T \<noteq> 0" using assms by simp
  have "usagePercent (Fin (real_of_int I)) (Fin (real_of_int T)) = Fin v"
    using T by (simp add: usagePercent_def q(1) s(1) v(1) flip: x_def)
  moreover have "\<bar>v - (1 - x) * 100\<bar> \<le> 264 / 2 ^ 53"
  proof -
    define a where "a = q - x"
    define b where "b = s - (1 - q)"
    define c where "c = v - s * 100"
    define u :: real where "u = 1 / 2 ^ 53"
    have "\<bar>a\<bar> \<le> u" "\<bar>b\<bar> \<le> u" "\<bar>c\<bar> \<le> 64 * u"
      using q(4) s(4) v(4) by (simp_all add: pow2_numeral a_def b_def c_def u_def)
    moreover have "v - (1 - x) * 100 = c + 100 * b - 100 * a"
      by (simp add: a_def b_def c_def algebra_simps)
    ultimately have "\<bar>v - (1 - x) * 100\<bar> \<le> 264 * u"
      by linarith
    then show ?thesis by (simp add: u_def)
  qed
  ultimately show ?thesis
    using v(2,3) that by (simp add: x_def)
qed

lemma cpuDiffs_aligned:
  "length cur \<le> length prev \<Longrightarrow> \<exists>i' t'. cpuDiffs cur prev i t = Inr (i', t')"
proof (induction cur prev i t rule: cpuDiffs.induct)
  case (1 previous idleDiff totalDiff)
  show ?case by simp
next
  case (2 current cs idleDiff totalDiff)
  then show ?case by simp
next
  case (3 current cs prev ps idleDiff totalDiff)
  then show ?case by (simp add: Let_def)
qed

lemma cpuDiffs_missing:
  "length prev < length cur \<Longrightarrow> cpuDiffs cur prev i t = Inl TypeError"
  by (induction cur prev i t rule: cpuDiffs.induct) (simp_all add: Let_def)

lemma calculateCpuUsage_missing:
  "length prev < length cur \<Longrightarrow> calculateCpuUsage cur prev = Inl TypeError"
  by (simp add: calculateCpuUsage_def cpuDiffs_missing)

lemma calculateCpuUsage_aligned:
  assumes "length cur \<le> length prev"
  shows "\<exists>usage. calculateCpuUsage cur prev = Inr (usage, cur)"
proof -
  obtain i t where "cpuDiffs cur prev (Fin 0) (Fin 0) = Inr (i, t)"
    using cpuDiffs_aligned [OF assms] by blast
  then show ?thesis by (simp add: calculateCpuUsage_def)
qed

lemma calculateCpuUsage_exact:
  assumes "list_all2 nonDecreasing prev cur" and "list_all nonNegative prev"
    and "grandTotal cur < 2 ^ 53"
  shows "calculateCpuUsage cur prev =
           Inr (if totalDelta cur prev = 0 then ''0.0''
                else jsToFixed 1 (usagePercent (Fin (real_of_int (idleDelta cur prev)))
                                               (Fin (real_of_int (totalDelta cur prev)))), cur)"
    and "0 \<le> idleDelta cur prev" and "idleDelta cur prev \<le> totalDelta cur prev"
proof -
  have "cpuDiffs cur prev (Fin (real_of_int 0)) (Fin (real_of_int 0)) =
          Inr (Fin (real_of_int (0 + idleDelta cur prev)), Fin (real_of_int (0 + totalDelta cur prev)))
        \<and> 0 \<le> idleDelta cur prev \<and> idleDelta cur prev \<le> totalDelta cur prev"
    using assms by (intro cpuDiffs_exact) simp_all
  then show "calculateCpuUsage cur prev =
           Inr (if totalDelta cur prev = 0 then ''0.0''
                else jsToFixed 1 (usagePercent (Fin (real_of_int (idleDelta cur prev)))
                                               (Fin (real_of_int (totalDelta cur prev)))), cur)"
    and "0 \<le> idleDelta cur prev" and "idleDelta cur prev \<le> totalDelta cur prev"
    by (simp_all add: calculateCpuUsage_def)
qed


text \<open>
  Claim C4, as amended. For two consecutive samples with the same cores, counters that are
  not negative, do not decrease and add up to less than \<open>2^53\<close> in the current sample, the
  deltas that \<^verbatim>\<open>calculateCpuUsage\<close> sums are exact. It returns \<open>''0.0''\<close> when the summed total
  delta is zero. Otherwise it returns, in the notation of \<^verbatim>\<open>toFixed(1)\<close>, the double \<open>v\<close>
  that \<open>(1 - idleDiff / totalDiff) * 100\<close> evaluates to, each operation rounded to binary64:
  \<open>v\<close> is between 0 and 100 and differs from the exact percentage by at most \<open>264 / 2^53\<close>, and
  the number that the returned string denotes is between 0 and 100 and differs from \<open>v\<close> by
  at most one twentieth. In both cases the stored previous sample becomes the current one.
\<close>

theorem calculateCpuUsage_monotone:
  assumes "list_all2 nonDecreasing prev cur" and "list_all nonNegative prev"
    and "grandTotal cur < 2 ^ 53"
  shows "length cur = length prev
         \<and> 0 \<le> totalDelta cur prev
         \<and> (totalDelta cur prev = 0 \<longrightarrow> calculateCpuUsage cur prev = Inr (''0.0'', cur))
         \<and> (0 < totalDelta cur prev \<longrightarrow>
              (\<exists>v. usagePercent (Fin (real_of_int (idleDelta cur prev)))
                                 (Fin (real_of_int (totalDelta cur prev))) = Fin v
                  \<and> calculateCpuUsage cur prev = Inr (toFixed 1 v, cur)
                  \<and> 0 \<le> v \<and> v \<le> 100
                  \<and> \<bar>v - cpuPercent cur prev\<bar> \<le> 264 / 2 ^ 53
                  \<and> 0 \<le> readFixed (toFixed 1 v) \<and> readFixed (toFixed 1 v) \<le> 100
                  \<and> \<bar>readFixed (toFixed 1 v) - v\<bar> \<le> 1 / 20))"
proof -
  note e = calculateCpuUsage_exact [OF assms]
  have l: "length cur = length prev"
    using assms(1) by (simp add: list_all2_lengthD)
  have z: "calculateCpuUsage cur prev = Inr (''0.0'', cur)" if "totalDelta cur prev = 0"
    using e(1) that by simp
  have p: "\<exists>v. usagePercent (Fin (real_of_int (idleDelta cur prev)))
                              (Fin (real_of_int (totalDelta cur prev))) = Fin v
                  \<and> calculateCpuUsage cur prev = Inr (toFixed 1 v, cur)
                  \<and> 0 \<le> v \<and> v \<le> 100
                  \<and> \<bar>v - cpuPercent cur prev\<bar> \<le> 264 / 2 ^ 53
                  \<and> 0 \<le> readFixed (toFixed 1 v) \<and> readFixed (toFixed 1 v) \<le> 100
                  \<and> \<bar>readFixed (toFixed 1 v) - v\<bar> \<le> 1 / 20"
    if t: "0 < totalDelta cur prev"
  proof -
    obtain v where v: "usagePercent (Fin (real_of_int (idleDelta cur prev)))
                                    (Fin (real_of_int (totalDelta cur prev))) = Fin v"
      "0 \<le> v" "v \<le> 100"
      "\<bar>v - (1 - real_of_int (idleDelta cur prev) / real_of_int (totalDelta cur prev)) * 100\<bar>
         \<le> 264 / 2 ^ 53"
      using usagePercent_bounds [OF e(2,3) t] by blast
    have c: "calculateCpuUsage cur prev = Inr (toFixed 1 v, cur)"
      using e(1) t v(1) by simp
    have r: "readFixed (toFixed 1 v) = fixedValue 1 v"
      using v(2,3) by (intro readFixed_toFixed) simp
    have "0 \<le> fixedValue 1 v \<and> fixedValue 1 v \<le> of_int 100"
      using v(2,3) by (intro fixedValue_range) simp_all
    moreover have "\<bar>fixedValue 1 v - v\<bar> \<le> 1 / 20"
      using fixedValue_near [OF v(2), of 1] by simp
    ultimately show ?thesis
      using v c r by (auto simp add: cpuPercent_def)
  qed
  show ?thesis
    using l e(2,3) z p by auto
qed

text \<open>
  Witness of C4: one core whose idle time advanced by 70 ms out of 100 ms shows \<open>30.0\<close>.
\<close>

theorem calculateCpuUsage_monotone_witness:
  "list_all2 nonDecreasing
     [\<lparr>model = ''cpu'', speed = 2400, times = \<lparr>user = 100, nice = 0, sys = 0, idle = 100, irq = 0\<rparr>\<rparr>]
     [\<lparr>model = ''cpu'', speed = 2400, times = \<lparr>user = 130, nice = 0, sys = 0, idle = 170, irq = 0\<rparr>\<rparr>]
   \<and> list_all nonNegative
     [\<lparr>model = ''cpu'', speed = 2400, times = \<lparr>user = 100, nice = 0, sys = 0, idle = 100, irq = 0\<rparr>\<rparr>]
   \<and> grandTotal
     [\<lparr>model = ''cpu'', speed = 2400, times = \<lparr>user = 130, nice = 0, sys = 0, idle = 170, irq = 0\<rparr>\<rparr>]
     < 2 ^ 53
   \<and> calculateCpuUsage
     [\<lparr>model = ''cpu'', speed = 2400, times = \<lparr>user = 130, nice = 0, sys = 0, idle = 170, irq = 0\<rparr>\<rparr>]
     [\<lparr>model = ''cpu'', speed = 2400, times = \<lparr>user = 100, nice = 0, sys = 0, idle = 100, irq = 0\<rparr>\<rparr>]
     = Inr (''30.0'',
     [\<lparr>model = ''cpu'', speed = 2400, times = \<lparr>user = 130, nice = 0, sys = 0, idle = 170, irq = 0\<rparr>\<rparr>])"
proof -
  let ?p = "\<lparr>model = ''cpu'', speed = 2400, times = \<lparr>user = 100, nice = 0, sys = 0, idle = 100, irq = 0\<rparr>\<rparr>"
  let ?c = "\<lparr>model = ''cpu'', speed = 2400, times = \<lparr>user = 130, nice = 0, sys = 0, idle = 170, irq = 0\<rparr>\<rparr>"
  have h1: "list_all2 nonDecreasing [?p] [?c]" by (simp add: nonDecreasing_def)
  have h2: "list_all nonNegative [?p]" by (simp add: nonNegative_def)
  have h3: "grandTotal [?c] < 2 ^ 53" by (simp add: grandTotal_def totalTime_def)
  have t: "totalDelta [?c] [?p] = 100" "idleDelta [?c] [?p] = 70"
    by (simp_all add: totalDelta_def idleDelta_def totalTime_def)
  have u: "jsToFixed 1 (usagePercent (Fin 70) (Fin 100)) = ''30.0''"
    by (simp add: usagePercent_def fl_eval toFixed_eval)
  from calculateCpuUsage_monotone [OF h1 h2 h3] h1 h2 h3 show ?thesis
    unfolding t using u by auto
qed

text \<open>
  Counterexample to C4 as stated: the only core spent 51 ms busy and 29 ms idle. The exact
  percentage is \<open>63.75\<close>, which rounds to \<open>63.8\<close>; the doubles of the code give a value
  just below \<open>63.75\<close> and the tracker returns \<open>63.7\<close>.
\<close>

theorem calculateCpuUsage_rounding_counterexample:
  "calculateCpuUsage
     [\<lparr>model = ''cpu'', speed = 2400, times = \<lparr>user = 1051, nice = 0, sys = 0, idle = 5029, irq = 0\<rparr>\<rparr>]
     [\<lparr>model = ''cpu'', speed = 2400, times = \<lparr>user = 1000, nice = 0, sys = 0, idle = 5000, irq = 0\<rparr>\<rparr>]
   = Inr (''63.7'',
     [\<lparr>model = ''cpu'', speed = 2400, times = \<lparr>user = 1051, nice = 0, sys = 0, idle = 5029, irq = 0\<rparr>\<rparr>])
   \<and> cpuPercent
     [\<lparr>model = ''cpu'', speed = 2400, times = \<lparr>user = 1051, nice = 0, sys = 0, idle = 5029, irq = 0\<rparr>\<rparr>]
     [\<lparr>model = ''cpu'', speed = 2400, times = \<lparr>user = 1000, nice = 0, sys = 0, idle = 5000, irq = 0\<rparr>\<rparr>]
     = 63.75
   \<and> toFixed 1 63.75 = ''63.8''"
  by (simp add: calculateCpuUsage_def timesTotal_def usagePercent_def fl_eval toFixed_eval
      cpuPercent_def idleDelta_def totalDelta_def totalTime_def)






text \<open>
  Claim C6 fails on the code: \<^verbatim>\<open>calculateCpuUsage\<close> has no test for a counter that
  decreased. The user counter fell from 100 to 80 while the idle counter rose by 30: the
  summed idle delta is 30, the summed total delta is 10, and the tracker reports the
  negative usage \<open>-200.0\<close> instead of the zero value.
\<close>

theorem calculateCpuUsage_decreased_counter:
  "calculateCpuUsage
     [\<lparr>model = ''cpu'', speed = 2400, times = \<lparr>user = 80, nice = 0, sys = 0, idle = 30, irq = 0\<rparr>\<rparr>]
     [\<lparr>model = ''cpu'', speed = 2400, times = \<lparr>user = 100, nice = 0, sys = 0, idle = 0, irq = 0\<rparr>\<rparr>]
   = Inr (''-200.0'',
     [\<lparr>model = ''cpu'', speed = 2400, times = \<lparr>user = 80, nice = 0, sys = 0, idle = 30, irq = 0\<rparr>\<rparr>])"
  by (simp add: calculateCpuUsage_def timesTotal_def usagePercent_def fl_eval toFixed_eval)

text \<open>
  Claim C7 fails on the code when the number of cores grows. With one core in the previous
  sample and two in the current one, the loop reads \<^verbatim>\<open>previousCpus[1]\<close>, which is
  \<^verbatim>\<open>undefined\<close>, and \<^verbatim>\<open>prev.times\<close> throws a TypeError: no usage value is returned.
\<close>

theorem calculateCpuUsage_added_core:
  "calculateCpuUsage
     [\<lparr>model = ''cpu'', speed = 2400, times = \<lparr>user = 130, nice = 0, sys = 0, idle = 170, irq = 0\<rparr>\<rparr>,
      \<lparr>model = ''cpu'', speed = 2400, times = \<lparr>user = 10, nice = 0, sys = 0, idle = 20, irq = 0\<rparr>\<rparr>]
     [\<lparr>model = ''cpu'', speed = 2400, times = \<lparr>user = 100, nice = 0, sys = 0, idle = 100, irq = 0\<rparr>\<rparr>]
   = Inl TypeError"
  by (simp add: calculateCpuUsage_def)

section \<open>Network throughput tracker: properties\<close>

lemma fl_not_negative: "0 \<le> x \<Longrightarrow> \<not> jsLess (fl x) (Fin 0)"
  using fl_nonneg [of x] by auto

lemma jsTimes_not_negative:
  "\<not> jsLess x (Fin 0) \<Longrightarrow> 0 < c \<Longrightarrow> \<not> jsLess (jsTimes x (Fin c)) (Fin 0)"
  by (cases x) (simp_all add: fl_not_negative)

lemma jsDivide_not_negative:
  "\<not> jsLess x (Fin 0) \<Longrightarrow> 0 < c \<Longrightarrow> \<not> jsLess (jsDivide x (Fin c)) (Fin 0)"
  by (cases x) (simp_all add: fl_not_negative)

lemma jsDivide_positive:
  "jsLessEq (Fin 0) b \<Longrightarrow> jsLess (Fin 0) d \<Longrightarrow> \<not> jsLess (jsDivide b d) (Fin 0)"
  by (cases b; cases d) (auto simp add: jsLessEq_def fl_not_negative)

lemma jsLessEq_not_less: "jsLessEq x y \<Longrightarrow> \<not> jsLess y x"
  by (cases x; cases y) (auto simp add: jsLessEq_def)

lemma jsLess_not_lessEq: "jsLess x y \<Longrightarrow> \<not> jsLessEq y x"
  by (cases x; cases y) (auto simp add: jsLessEq_def)

lemma trafDisplay_zero: "trafDisplay (Fin 0) = ''0Kbps''"
  by (simp add: trafDisplay_def fl_def toFixed_eval)

lemma trafMbps_not_negative: "\<not> jsLess (trafMbps totalBytes t prev) (Fin 0)"
proof -
  have "\<not> jsLess (jsDivide (jsTimes (jsDivide b d) (Fin 8)) (Fin (1000 * 1000))) (Fin 0)"
    if "jsLessEq (Fin 0) b" and "jsLess (Fin 0) d" for b d
    using that by (intro jsDivide_not_negative jsTimes_not_negative jsDivide_positive) simp_all
  then show ?thesis
    by (simp add: trafMbps_def Let_def)
qed

lemma timeDiffSec_second:
  assumes "0 < tp" and "t < 2 ^ 53" and "t - tp = 1000"
  shows "jsDivide (jsMinus (ofInt t) (ofInt tp)) (Fin 1000) = Fin 1"
proof -
  have "\<bar>t\<bar> < 2 ^ 53" "\<bar>tp\<bar> < 2 ^ 53"
    using assms by simp_all
  then have "ofInt t = Fin (real_of_int t)" "ofInt tp = Fin (real_of_int tp)"
    by (simp_all add: ofInt_exact)
  moreover have "real_of_int t - real_of_int tp = 1000"
    using assms(3) by (metis of_int_diff of_int_numeral)
  moreover have "fl 1000 = Fin 1000" "fl 1 = Fin 1"
    by (simp_all add: fl_eval)
  ultimately show ?thesis by simp
qed

text \<open>
  Claim C8, as amended. On Linux, with \<^verbatim>\<open>/proc/net/dev\<close> read, the tracker stores the new
  counter and time. With \<open>timeDiffSec\<close> and \<open>bytesDiff\<close> the doubles that the code computes, it
  shows \<open>''0Kbps''\<close> whenever the stored time is not positive (the first sample), \<open>timeDiffSec\<close>
  is not above zero or \<open>bytesDiff\<close> is not at least zero. Otherwise \<open>bps = bytesDiff / timeDiffSec\<close> and
  \<open>mbps = bps * 8 / 1000000\<close>, each operation rounded to binary64, shown as \<open>mbps * 1000\<close>
  without decimals and \<open>Kbps\<close> when \<open>mbps\<close> is below one, and with one decimal and \<open>Mbps\<close>
  otherwise. After a stored sample, 2000000 bytes in 1000 ms show \<open>16.0Mbps\<close> and 500 bytes
  in 1000 ms show \<open>4Kbps\<close>. The rate is never negative.
\<close>

theorem getTrafUsage_rate:
  "snd (getTrafUsage ''linux'' (ReadOk data) t prev) = \<lparr>bytes = sumBytes data, time = t\<rparr>
   \<and> (time prev \<le> 0
        \<or> \<not> jsLess (Fin 0) (jsDivide (jsMinus (ofInt t) (ofInt (time prev))) (Fin 1000))
        \<or> \<not> jsLessEq (Fin 0) (jsMinus (sumBytes data) (bytes prev)) \<longrightarrow>
          fst (getTrafUsage ''linux'' (ReadOk data) t prev) = ''0Kbps'')
   \<and> (time prev = 0
        \<or> jsLessEq (jsDivide (jsMinus (ofInt t) (ofInt (time prev))) (Fin 1000)) (Fin 0)
        \<or> jsLess (jsMinus (sumBytes data) (bytes prev)) (Fin 0) \<longrightarrow>
          fst (getTrafUsage ''linux'' (ReadOk data) t prev) = ''0Kbps'')
   \<and> (0 < time prev
        \<and> jsLess (Fin 0) (jsDivide (jsMinus (ofInt t) (ofInt (time prev))) (Fin 1000))
        \<and> jsLessEq (Fin 0) (jsMinus (sumBytes data) (bytes prev)) \<longrightarrow>
          fst (getTrafUsage ''linux'' (ReadOk data) t prev) =
            (let timeDiffSec = jsDivide (jsMinus (ofInt t) (ofInt (time prev))) (Fin 1000);
                 bytesDiff = jsMinus (sumBytes data) (bytes prev);
                 bps = jsDivide bytesDiff timeDiffSec;
                 mbps = jsDivide (jsTimes bps (Fin 8)) (Fin (1000 * 1000))
             in if jsLess mbps (Fin 1) then jsToFixed 0 (jsTimes mbps (Fin 1000)) @ ''Kbps''
                else jsToFixed 1 mbps @ ''Mbps''))
   \<and> (0 < time prev \<and> t < 2 ^ 53 \<and> t - time prev = 1000
        \<and> (\<exists>b. bytes prev = Fin b \<and> sumBytes data = Fin (b + 2000000)) \<longrightarrow>
          fst (getTrafUsage ''linux'' (ReadOk data) t prev) = ''16.0Mbps'')
   \<and> (0 < time prev \<and> t < 2 ^ 53 \<and> t - time prev = 1000
        \<and> (\<exists>b. bytes prev = Fin b \<and> sumBytes data = Fin (b + 500)) \<longrightarrow>
          fst (getTrafUsage ''linux'' (ReadOk data) t prev) = ''4Kbps'')
   \<and> \<not> jsLess (trafMbps (sumBytes data) t prev) (Fin 0)"
proof -
  let ?m = "trafMbps (sumBytes data) t prev"
  let ?td = "jsDivide (jsMinus (ofInt t) (ofInt (time prev))) (Fin 1000)"
  let ?bd = "jsMinus (sumBytes data) (bytes prev)"
  have g: "getTrafUsage ''linux'' (ReadOk data) t prev =
             (trafDisplay ?m, \<lparr>bytes = sumBytes data, time = t\<rparr>)"
    by (simp add: getTrafUsage_def Let_def)
  have z: "trafDisplay ?m = ''0Kbps''"
    if "time prev \<le> 0 \<or> \<not> jsLess (Fin 0) ?td \<or> \<not> jsLessEq (Fin 0) ?bd"
    using that by (auto simp add: trafMbps_def Let_def trafDisplay_zero)
  have z': "trafDisplay ?m = ''0Kbps''"
    if "time prev = 0 \<or> jsLessEq ?td (Fin 0) \<or> jsLess ?bd (Fin 0)"
    using that jsLessEq_not_less [of ?td "Fin 0"] jsLess_not_lessEq [of ?bd "Fin 0"]
    by (intro z) auto
  have f: "trafDisplay ?m =
            (let timeDiffSec = ?td; bytesDiff = ?bd;
                 bps = jsDivide bytesDiff timeDiffSec;
                 mbps = jsDivide (jsTimes bps (Fin 8)) (Fin (1000 * 1000))
             in if jsLess mbps (Fin 1) then jsToFixed 0 (jsTimes mbps (Fin 1000)) @ ''Kbps''
                else jsToFixed 1 mbps @ ''Mbps'')"
    if "0 < time prev \<and> jsLess (Fin 0) ?td \<and> jsLessEq (Fin 0) ?bd"
    using that by (simp add: trafMbps_def trafDisplay_def Let_def)
  have a: "trafDisplay ?m = ''16.0Mbps''"
    if h: "0 < time prev \<and> t < 2 ^ 53 \<and> t - time prev = 1000
        \<and> (\<exists>b. bytes prev = Fin b \<and> sumBytes data = Fin (b + 2000000))"
  proof -
    have td: "?td = Fin 1"
      using h by (intro timeDiffSec_second) simp_all
    have bd: "?bd = Fin 2000000"
      using h by (auto simp add: fl_eval)
    have "?m = Fin 16"
      using h unfolding trafMbps_def Let_def td bd by (simp add: jsLessEq_def fl_eval)
    then show ?thesis
      by (simp add: trafDisplay_def toFixed_eval)
  qed
  have b: "trafDisplay ?m = ''4Kbps''"
    if h: "0 < time prev \<and> t < 2 ^ 53 \<and> t - time prev = 1000
        \<and> (\<exists>b. bytes prev = Fin b \<and> sumBytes data = Fin (b + 500))"
  proof -
    have td: "?td = Fin 1"
      using h by (intro timeDiffSec_second) simp_all
    have bd: "?bd = Fin 500"
      using h by (auto simp add: fl_eval)
    have "?m = jsDivide (jsTimes (jsDivide (Fin 500) (Fin 1)) (Fin 8)) (Fin (1000 * 1000))"
      using h unfolding trafMbps_def Let_def td bd by (simp add: jsLessEq_def)
    moreover have "trafDisplay (jsDivide (jsTimes (jsDivide (Fin 500) (Fin 1)) (Fin 8)) (Fin (1000 * 1000)))
                   = ''4Kbps''"
      by (simp add: trafDisplay_def fl_eval toFixed_eval)
    ultimately show ?thesis by simp
  qed
  show ?thesis
    unfolding g fst_conv snd_conv
    using z z' f a b trafMbps_not_negative [of "sumBytes data" t prev] by blast
qed

text \<open>
  Witness of C8: a file with the loopback line and one interface that counts 3000000 bytes,
  read one second after samples of 1000000 and of 2999500 bytes, and as the first sample.
\<close>

theorem getTrafUsage_rate_witness:
  "fst (getTrafUsage ''linux''
     (ReadOk (''Inter-|   Receive  |  Transmit'' @ [CHR 0x0A] @
              '' face |bytes packets|bytes packets'' @ [CHR 0x0A] @
              ''    lo: 700 7 0 0 0 0 0 0 700 7 0 0 0 0 0 0'' @ [CHR 0x0A] @
              ''  eth0: 2000000 9 0 0 0 0 0 0 1000000 9 0 0 0 0 0 0'' @ [CHR 0x0A]))
     1700000001000 \<lparr>bytes = Fin 1000000, time = 1700000000000\<rparr>) = ''16.0Mbps''
   \<and> fst (getTrafUsage ''linux''
     (ReadOk (''Inter-|   Receive  |  Transmit'' @ [CHR 0x0A] @
              '' face |bytes packets|bytes packets'' @ [CHR 0x0A] @
              ''    lo: 700 7 0 0 0 0 0 0 700 7 0 0 0 0 0 0'' @ [CHR 0x0A] @
              ''  eth0: 2000000 9 0 0 0 0 0 0 1000000 9 0 0 0 0 0 0'' @ [CHR 0x0A]))
     1700000001000 \<lparr>bytes = Fin 0, time = 0\<rparr>) = ''0Kbps''
   \<and> fst (getTrafUsage ''linux''
     (ReadOk (''Inter-|   Receive  |  Transmit'' @ [CHR 0x0A] @
              '' face |bytes packets|bytes packets'' @ [CHR 0x0A] @
              ''    lo: 700 7 0 0 0 0 0 0 700 7 0 0 0 0 0 0'' @ [CHR 0x0A] @
              ''  eth0: 2000000 9 0 0 0 0 0 0 1000000 9 0 0 0 0 0 0'' @ [CHR 0x0A]))
     1700000001000 \<lparr>bytes = Fin 2999500, time = 1700000000000\<rparr>) = ''4Kbps''"
proof -
  let ?data = "''Inter-|   Receive  |  Transmit'' @ [CHR 0x0A] @
              '' face |bytes packets|bytes packets'' @ [CHR 0x0A] @
              ''    lo: 700 7 0 0 0 0 0 0 700 7 0 0 0 0 0 0'' @ [CHR 0x0A] @
              ''  eth0: 2000000 9 0 0 0 0 0 0 1000000 9 0 0 0 0 0 0'' @ [CHR 0x0A]"
  have s: "sumBytes ?data = Fin 3000000"
    by code_simp
  have "fst (getTrafUsage ''linux'' (ReadOk ?data) 1700000001000
          \<lparr>bytes = Fin 1000000, time = 1700000000000\<rparr>) = ''16.0Mbps''"
    using getTrafUsage_rate [of ?data 1700000001000 "\<lparr>bytes = Fin 1000000, time = 1700000000000\<rparr>"] s
    by simp
  moreover have "fst (getTrafUsage ''linux'' (ReadOk ?data) 1700000001000
          \<lparr>bytes = Fin 0, time = 0\<rparr>) = ''0Kbps''"
    using getTrafUsage_rate [of ?data 1700000001000 "\<lparr>bytes = Fin 0, time = 0\<rparr>"]
    by simp
  moreover have "fst (getTrafUsage ''linux'' (ReadOk ?data) 1700000001000
          \<lparr>bytes = Fin 2999500, time = 1700000000000\<rparr>) = ''4Kbps''"
    using getTrafUsage_rate [of ?data 1700000001000 "\<lparr>bytes = Fin 2999500, time = 1700000000000\<rparr>"] s
    by simp
  ultimately show ?thesis by simp
qed

text \<open>
  Counterexamples to C8 as stated. After a stored sample of 1000000 bytes, 135000 bytes in
  1080 ms are exactly one megabit per second, to be shown with one decimal as \<open>1.0Mbps\<close>;
  the doubles of the code give \<open>mbps = 0.9999999999999999\<close> and the tracker shows
  \<open>1000Kbps\<close>. And 143750 bytes in 1000 ms are exactly 1.15 megabit per second, which rounds
  to \<open>1.2\<close>; the tracker shows \<open>1.1Mbps\<close>.
\<close>

theorem getTrafUsage_rounding_counterexample:
  "fst (getTrafUsage ''linux''
     (ReadOk (''Inter-|   Receive  |  Transmit'' @ [CHR 0x0A] @
              '' face |bytes packets|bytes packets'' @ [CHR 0x0A] @
              ''    lo: 700 7 0 0 0 0 0 0 700 7 0 0 0 0 0 0'' @ [CHR 0x0A] @
              ''  eth0: 1100000 9 0 0 0 0 0 0 35000 9 0 0 0 0 0 0'' @ [CHR 0x0A]))
     1700000001080 \<lparr>bytes = Fin 1000000, time = 1700000000000\<rparr>) = ''1000Kbps''
   \<and> real_of_int (1135000 - 1000000) / (real_of_int (1700000001080 - 1700000000000) / 1000) * 8
       / (1000 * 1000) = 1
   \<and> fst (getTrafUsage ''linux''
     (ReadOk (''Inter-|   Receive  |  Transmit'' @ [CHR 0x0A] @
              '' face |bytes packets|bytes packets'' @ [CHR 0x0A] @
              ''    lo: 700 7 0 0 0 0 0 0 700 7 0 0 0 0 0 0'' @ [CHR 0x0A] @
              ''  eth0: 1100000 9 0 0 0 0 0 0 43750 9 0 0 0 0 0 0'' @ [CHR 0x0A]))
     1700000001000 \<lparr>bytes = Fin 1000000, time = 1700000000000\<rparr>) = ''1.1Mbps''
   \<and> toFixed 1 (real_of_int (1143750 - 1000000) / (real_of_int (1700000001000 - 1700000000000) / 1000) * 8
       / (1000 * 1000)) = ''1.2''"
proof -
  let ?d1 = "''Inter-|   Receive  |  Transmit'' @ [CHR 0x0A] @
              '' face |bytes packets|bytes packets'' @ [CHR 0x0A] @
              ''    lo: 700 7 0 0 0 0 0 0 700 7 0 0 0 0 0 0'' @ [CHR 0x0A] @
              ''  eth0: 1100000 9 0 0 0 0 0 0 35000 9 0 0 0 0 0 0'' @ [CHR 0x0A]"
  let ?d2 = "''Inter-|   Receive  |  Transmit'' @ [CHR 0x0A] @
              '' face |bytes packets|bytes packets'' @ [CHR 0x0A] @
              ''    lo: 700 7 0 0 0 0 0 0 700 7 0 0 0 0 0 0'' @ [CHR 0x0A] @
              ''  eth0: 1100000 9 0 0 0 0 0 0 43750 9 0 0 0 0 0 0'' @ [CHR 0x0A]"
  have s1: "sumBytes ?d1 = Fin 1135000" by code_simp
  have s2: "sumBytes ?d2 = Fin 1143750" by code_simp
  have "fst (getTrafUsage ''linux'' (ReadOk ?d1) 1700000001080
               \<lparr>bytes = Fin 1000000, time = 1700000000000\<rparr>) = ''1000Kbps''"
    using s1
    by (simp add: getTrafUsage_def trafMbps_def trafDisplay_def jsLessEq_def fl_eval toFixed_eval)
  moreover have "fst (getTrafUsage ''linux'' (ReadOk ?d2) 1700000001000
               \<lparr>bytes = Fin 1000000, time = 1700000000000\<rparr>) = ''1.1Mbps''"
    using s2
    by (simp add: getTrafUsage_def trafMbps_def trafDisplay_def jsLessEq_def fl_eval toFixed_eval)
  moreover have "toFixed 1 (real_of_int (1143750 - 1000000)
                   / (real_of_int (1700000001000 - 1700000000000) / 1000) * 8 / (1000 * 1000)) = ''1.2''"
    by (simp add: toFixed_eval)
  ultimately show ?thesis by simp
qed

section \<open>Disk usage probe: properties\<close>

text \<open>
  Claim C9. A command error gives \<open>''?''\<close>. On a platform other than \<^verbatim>\<open>win32\<close>: when the
  trimmed output has a second line with at least three tokens, the display is the second
  token, a slash, the first token, a space and the third token; when it has no second line,
  or fewer than three tokens there, the display is \<open>''?''\<close>, as for the empty output. The
  output of the example gives \<open>10G/20G 53%\<close>. The probe is a total function: it always
  resolves with a string.
\<close>

theorem getDiskUsage_posix:
  "getDiskUsage pf ExecError = ''?''
   \<and> (pf \<noteq> ''win32'' \<longrightarrow>
        (2 \<le> length (splitOn (CHR 0x0A) (trim out)) \<and>
         3 \<le> length (wordsOf (splitOn (CHR 0x0A) (trim out) ! 1)) \<longrightarrow>
           getDiskUsage pf (ExecOk out) =
             wordsOf (splitOn (CHR 0x0A) (trim out) ! 1) ! 1 @ ''/'' @
             wordsOf (splitOn (CHR 0x0A) (trim out) ! 1) ! 0 @ '' '' @
             wordsOf (splitOn (CHR 0x0A) (trim out) ! 1) ! 2)
        \<and> (length (splitOn (CHR 0x0A) (trim out)) < 2 \<or>
            length (wordsOf (splitOn (CHR 0x0A) (trim out) ! 1)) < 3 \<longrightarrow>
           getDiskUsage pf (ExecOk out) = ''?'')
        \<and> getDiskUsage pf (ExecOk []) = ''?''
        \<and> getDiskUsage pf
             (ExecOk (''Size  Used Use%'' @ [CHR 0x0A] @ ''20G   10G  53%'' @ [CHR 0x0A])) =
            ''10G/20G 53%'')"
proof -
  have e: "dfUsage [] = ''?''"
    by code_simp
  have x: "dfUsage (''Size  Used Use%'' @ [CHR 0x0A] @ ''20G   10G  53%'' @ [CHR 0x0A]) = ''10G/20G 53%''"
    by code_simp
  have w: "splitWs (trim l) = wordsOf l" if "3 \<le> length (wordsOf l)" for l
    using that by (auto simp: splitWs_trim)
  have a: "dfUsage out =
             wordsOf (splitOn (CHR 0x0A) (trim out) ! 1) ! 1 @ ''/'' @
             wordsOf (splitOn (CHR 0x0A) (trim out) ! 1) ! 0 @ '' '' @
             wordsOf (splitOn (CHR 0x0A) (trim out) ! 1) ! 2"
    if "2 \<le> length (splitOn (CHR 0x0A) (trim out))"
      and "3 \<le> length (wordsOf (splitOn (CHR 0x0A) (trim out) ! 1))"
    using that w [OF that(2)] by (simp add: dfUsage_def Let_def)
  have b: "dfUsage out = ''?''"
    if "length (splitOn (CHR 0x0A) (trim out)) < 2 \<or>
        length (wordsOf (splitOn (CHR 0x0A) (trim out) ! 1)) < 3"
    using that length_splitWs_trim [of "splitOn (CHR 0x0A) (trim out) ! 1"]
    by (auto simp: dfUsage_def Let_def)
  show ?thesis
    using e x a b by (simp add: getDiskUsage_def)
qed

text \<open>
  Witness of C9: an output with a fourth column and a carriage return, an error message of
  one line, and a second line of two tokens.
\<close>

theorem getDiskUsage_posix_witness:
  "getDiskUsage ''linux''
     (ExecOk (''Size  Used Use%'' @ [CHR 0x0A] @ ''234G  180G  77% /'' @ [CHR 0x0D, CHR 0x0A])) =
   ''180G/234G 77%''
   \<and> getDiskUsage ''darwin'' (ExecOk (''df: illegal option -- -'' @ [CHR 0x0A])) = ''?''
   \<and> getDiskUsage ''linux'' (ExecOk (''Size  Used Use%'' @ [CHR 0x0A] @ ''234G  180G'')) = ''?''"
proof -
  let ?a = "''Size  Used Use%'' @ [CHR 0x0A] @ ''234G  180G  77% /'' @ [CHR 0x0D, CHR 0x0A]"
  let ?b = "''df: illegal option -- -'' @ [CHR 0x0A]"
  let ?c = "''Size  Used Use%'' @ [CHR 0x0A] @ ''234G  180G''"
  have la: "splitOn (CHR 0x0A) (trim ?a) = [''Size  Used Use%'', ''234G  180G  77% /'']"
    by code_simp
  have wa: "wordsOf ''234G  180G  77% /'' = [''234G'', ''180G'', ''77%'', ''/'']"
    by code_simp
  have lb: "splitOn (CHR 0x0A) (trim ?b) = [''df: illegal option -- -'']"
    by code_simp
  have lc: "splitOn (CHR 0x0A) (trim ?c) = [''Size  Used Use%'', ''234G  180G'']"
    by code_simp
  have wc: "wordsOf ''234G  180G'' = [''234G'', ''180G'']"
    by code_simp
  have p: "''linux'' \<noteq> ''win32''" "''darwin'' \<noteq> ''win32''"
    by simp_all
  have "getDiskUsage ''linux'' (ExecOk ?a) = ''180G/234G 77%''"
    using getDiskUsage_posix [of "''linux''" ?a] la wa by simp
  moreover have "getDiskUsage ''darwin'' (ExecOk ?b) = ''?''"
    using getDiskUsage_posix [of "''darwin''" ?b] lb by simp
  moreover have "getDiskUsage ''linux'' (ExecOk ?c) = ''?''"
    using getDiskUsage_posix [of "''linux''" ?c] lc wc by simp
  ultimately show ?thesis by simp
qed

section \<open>Sampling: properties\<close>

lemma jsToFixed_no_space:
  assumes "\<bar>x\<bar> < 10 ^ 21"
  shows "CHR '' '' \<notin> set (jsToFixed f (Fin x))"
  using assms by (simp add: toFixed_no_space)

lemma gigabytes_bounds:
  assumes "0 \<le> n" and "n < 2 ^ 53"
  obtains g where "jsDivide (Fin (real_of_int n)) (Fin (1024 * 1024 * 1024)) = Fin g"
    and "0 \<le> g" and "g \<le> 8388608"
    and "\<bar>g - real_of_int n / (1024 * 1024 * 1024)\<bar> \<le> 1 / 2 ^ 31"
proof -
  define x where "x = real_of_int n / (1024 * 1024 * 1024)"
  have "real_of_int n < real_of_int (2 ^ 53)"
    using assms(2) by (rule iffD2 [OF of_int_less_iff])
  then have x: "0 \<le> x" "x \<le> real_of_int 8388608" "x < pow2 (22 + 1)"
    using assms(1) by (simp_all add: x_def pow2_def)
  obtain g where g: "fl x = Fin g" "0 \<le> g" "g \<le> real_of_int 8388608" "\<bar>g - x\<bar> \<le> pow2 (22 - 53)"
    using fl_bounded_near [OF x(1,2) _ x(3)] by auto
  have "jsDivide (Fin (real_of_int n)) (Fin (1024 * 1024 * 1024)) = Fin g"
    using g(1) by (simp add: x_def)
  moreover have "\<bar>g - real_of_int n / (1024 * 1024 * 1024)\<bar> \<le> 1 / 2 ^ 31"
    using g(4) by (simp add: x_def pow2_def)
  ultimately show ?thesis
    using g(2,3) that by simp
qed

lemma percentage_bounds:
  assumes "0 \<le> U" and "U \<le> T" and "0 < T"
  obtains p where "jsTimes (jsDivide (Fin (real_of_int U)) (Fin (real_of_int T))) (Fin 100) = Fin p"
    and "0 \<le> p" and "p \<le> 100"
    and "\<bar>p - real_of_int U / real_of_int T * 100\<bar> \<le> 164 / 2 ^ 53"
proof -
  define x where "x = real_of_int U / real_of_int T"
  have x1: "0 \<le> x" "x \<le> real_of_int 1"
    using assms by (simp_all add: x_def)
  then have x: "x < pow2 (0 + 1)"
    by (simp add: pow2_numeral)
  obtain q where q: "fl x = Fin q" "0 \<le> q" "q \<le> real_of_int 1" "\<bar>q - x\<bar> \<le> pow2 (0 - 53)"
    using fl_bounded_near [OF x1 _ x] by auto
  have z: "0 \<le> q * 100" "q * 100 \<le> real_of_int 100" "q * 100 < pow2 (6 + 1)"
    using q by (simp_all add: pow2_numeral)
  obtain p where p: "fl (q * 100) = Fin p" "0 \<le> p" "p \<le> real_of_int 100"
    "\<bar>p - q * 100\<bar> \<le> pow2 (6 - 53)"
    using fl_bounded_near [OF z(1,2) _ z(3)] by auto
  have T: "real_of_int T \<noteq> 0" using assms by simp
  have "jsTimes (jsDivide (Fin (real_of_int U)) (Fin (real_of_int T))) (Fin 100) = Fin p"
    using T by (simp add: q(1) p(1) flip: x_def)
  moreover have "\<bar>p - x * 100\<bar> \<le> 164 / 2 ^ 53"
  proof -
    define a where "a = q - x"
    define c where "c = p - q * 100"
    define u :: real where "u = 1 / 2 ^ 53"
    have "\<bar>a\<bar> \<le> u" "\<bar>c\<bar> \<le> 64 * u"
      using q(4) p(4) by (simp_all add: pow2_numeral a_def c_def u_def)
    moreover have "p - x * 100 = c + 100 * a"
      by (simp add: a_def c_def algebra_simps)
    ultimately have "\<bar>p - x * 100\<bar> \<le> 164 * u"
      by linarith
    then show ?thesis by (simp add: u_def)
  qed
  ultimately show ?thesis
    using p(2,3) that by (simp add: x_def)
qed

text \<open>
  Claim C10, as amended. In the result of a tick the \<open>ram\<close> field is the used memory
  \<open>totalmem - freemem\<close> and the total memory, each divided by \<open>1024^3\<close> in the notation of
  \<^verbatim>\<open>toFixed(1)\<close>, then \<open>GB\<close>, a space, \<open>used / total * 100\<close> in the notation of \<^verbatim>\<open>toFixed(1)\<close>
  and a percent sign, every operation rounded to binary64. The token of the status bar is
  the last piece of that string after a space. For a host whose free memory is at most its
  total memory, below \<open>2^53\<close> bytes, the two quotients by \<open>1024^3\<close> are within \<open>2^-31\<close> of the
  exact ones, the percentage \<open>p\<close> of the doubles is between 0 and 100 and within \<open>164 / 2^53\<close>
  of the exact one, and the token, which the status bar shows after \<open>RAM\<close>, is \<open>p\<close> in the
  notation of \<^verbatim>\<open>toFixed(1)\<close> with the percent sign.
\<close>

theorem ram_field:
  assumes "getResources h tr = Inr (res, tr')"
  shows "ram res =
           (let usedMem = jsMinus (ofInt (totalmem h)) (ofInt (freemem h))
            in jsToFixed 1 (jsDivide usedMem (Fin (1024 * 1024 * 1024))) @ ''/'' @
               jsToFixed 1 (jsDivide (ofInt (totalmem h)) (Fin (1024 * 1024 * 1024))) @ ''GB '' @
               jsToFixed 1 (jsTimes (jsDivide usedMem (ofInt (totalmem h))) (Fin 100)) @ ''%'')
         \<and> ramPercentOf (ram res) = last (splitOn (CHR '' '') (ram res))
         \<and> (0 \<le> freemem h \<and> freemem h \<le> totalmem h \<and> 0 < totalmem h \<and> totalmem h < 2 ^ 53 \<longrightarrow>
              (\<exists>u g p.
                 jsDivide (Fin (real_of_int (totalmem h - freemem h))) (Fin (1024 * 1024 * 1024)) = Fin u
                 \<and> jsDivide (Fin (real_of_int (totalmem h))) (Fin (1024 * 1024 * 1024)) = Fin g
                 \<and> jsTimes (jsDivide (Fin (real_of_int (totalmem h - freemem h)))
                                     (Fin (real_of_int (totalmem h)))) (Fin 100) = Fin p
                 \<and> ram res = toFixed 1 u @ ''/'' @ toFixed 1 g @ ''GB '' @ toFixed 1 p @ ''%''
                 \<and> \<bar>u - real_of_int (totalmem h - freemem h) / (1024 * 1024 * 1024)\<bar> \<le> 1 / 2 ^ 31
                 \<and> \<bar>g - real_of_int (totalmem h) / (1024 * 1024 * 1024)\<bar> \<le> 1 / 2 ^ 31
                 \<and> 0 \<le> p \<and> p \<le> 100
                 \<and> \<bar>p - real_of_int (totalmem h - freemem h) / real_of_int (totalmem h) * 100\<bar>
                      \<le> 164 / 2 ^ 53
                 \<and> ramPercentOf (ram res) = toFixed 1 p @ ''%''
                 \<and> text (statusBarOf
                      \<lparr>showOS = False, showCPU = False, showRAM = True, showDisk = False,
                       showTraffic = False, showBandwidth = False, iconOnly = False\<rparr> osName bwStr res) =
                    ''$(server) RAM '' @ toFixed 1 p @ ''%''))"
proof -
  let ?usedMem = "jsMinus (ofInt (totalmem h)) (ofInt (freemem h))"
  let ?A = "jsToFixed 1 (jsDivide ?usedMem (Fin (1024 * 1024 * 1024)))"
  let ?B = "jsToFixed 1 (jsDivide (ofInt (totalmem h)) (Fin (1024 * 1024 * 1024)))"
  let ?P = "jsToFixed 1 (jsTimes (jsDivide ?usedMem (ofInt (totalmem h))) (Fin 100))"
  have r: "ram res = ramUsage (totalmem h) (freemem h)"
    using assms by (auto simp: getResources_def Let_def split: sum.splits prod.splits)
  then have s: "ram res = ?A @ ''/'' @ ?B @ ''GB '' @ ?P @ ''%''"
    by (simp add: ramUsage_def Let_def)
  have "ram res \<noteq> []" "last (ram res) \<noteq> CHR '' ''"
    using s by simp_all
  then have "last (splitOn (CHR '' '') (ram res)) \<noteq> []"
    by (rule last_splitOn_nonempty)
  then have l: "ramPercentOf (ram res) = last (splitOn (CHR '' '') (ram res))"
    by (simp add: ramPercentOf_def Let_def)
  have b: "\<exists>u g p.
                 jsDivide (Fin (real_of_int (totalmem h - freemem h))) (Fin (1024 * 1024 * 1024)) = Fin u
                 \<and> jsDivide (Fin (real_of_int (totalmem h))) (Fin (1024 * 1024 * 1024)) = Fin g
                 \<and> jsTimes (jsDivide (Fin (real_of_int (totalmem h - freemem h)))
                                     (Fin (real_of_int (totalmem h)))) (Fin 100) = Fin p
                 \<and> ram res = toFixed 1 u @ ''/'' @ toFixed 1 g @ ''GB '' @ toFixed 1 p @ ''%''
                 \<and> \<bar>u - real_of_int (totalmem h - freemem h) / (1024 * 1024 * 1024)\<bar> \<le> 1 / 2 ^ 31
                 \<and> \<bar>g - real_of_int (totalmem h) / (1024 * 1024 * 1024)\<bar> \<le> 1 / 2 ^ 31
                 \<and> 0 \<le> p \<and> p \<le> 100
                 \<and> \<bar>p - real_of_int (totalmem h - freemem h) / real_of_int (totalmem h) * 100\<bar>
                      \<le> 164 / 2 ^ 53
                 \<and> ramPercentOf (ram res) = toFixed 1 p @ ''%''"
    if c: "0 \<le> freemem h \<and> freemem h \<le> totalmem h \<and> 0 < totalmem h \<and> totalmem h < 2 ^ 53"
  proof -
    define U where "U = totalmem h - freemem h"
    have U: "0 \<le> U" "U \<le> totalmem h" "U < 2 ^ 53" "0 < totalmem h" "0 \<le> totalmem h"
      "totalmem h < 2 ^ 53"
      using c by (simp_all add: U_def)
    have "\<bar>totalmem h\<bar> < 2 ^ 53" "\<bar>freemem h\<bar> < 2 ^ 53" "\<bar>totalmem h - freemem h\<bar> < 2 ^ 53"
      using c by simp_all
    then have t: "ofInt (totalmem h) = Fin (real_of_int (totalmem h))"
      and f: "ofInt (freemem h) = Fin (real_of_int (freemem h))"
      and m: "jsMinus (Fin (real_of_int (totalmem h))) (Fin (real_of_int (freemem h)))
              = Fin (real_of_int U)"
      unfolding U_def by (simp_all only: ofInt_exact jsMinus_int)
    obtain u where u: "jsDivide (Fin (real_of_int U)) (Fin (1024 * 1024 * 1024)) = Fin u"
      "0 \<le> u" "u \<le> 8388608" "\<bar>u - real_of_int U / (1024 * 1024 * 1024)\<bar> \<le> 1 / 2 ^ 31"
      using gigabytes_bounds [OF U(1,3)] by blast
    obtain g where g: "jsDivide (Fin (real_of_int (totalmem h))) (Fin (1024 * 1024 * 1024)) = Fin g"
      "0 \<le> g" "g \<le> 8388608"
      "\<bar>g - real_of_int (totalmem h) / (1024 * 1024 * 1024)\<bar> \<le> 1 / 2 ^ 31"
      using gigabytes_bounds [OF U(5,6)] by blast
    obtain p where p: "jsTimes (jsDivide (Fin (real_of_int U)) (Fin (real_of_int (totalmem h))))
                               (Fin 100) = Fin p"
      "0 \<le> p" "p \<le> 100"
      "\<bar>p - real_of_int U / real_of_int (totalmem h) * 100\<bar> \<le> 164 / 2 ^ 53"
      using percentage_bounds [OF U(1,2,4)] by blast
    have A: "?A = toFixed 1 u" and B: "?B = toFixed 1 g" and P: "?P = toFixed 1 p"
      unfolding t f m u(1) g(1) p(1) by simp_all
    have "\<bar>u\<bar> < 10 ^ 21" "\<bar>g\<bar> < 10 ^ 21" "\<bar>p\<bar> < 10 ^ 21"
      using u(2,3) g(2,3) p(2,3) by simp_all
    then have nA: "CHR '' '' \<notin> set (toFixed 1 u)" and nB: "CHR '' '' \<notin> set (toFixed 1 g)"
      and nP: "CHR '' '' \<notin> set (toFixed 1 p)"
      by (simp_all add: toFixed_no_space)
    have e: "ram res = (toFixed 1 u @ ''/'' @ toFixed 1 g @ ''GB'') @ CHR '' '' # (toFixed 1 p @ ''%'')"
      unfolding s A B P by simp
    have n1: "CHR '' '' \<notin> set (toFixed 1 u @ ''/'' @ toFixed 1 g @ ''GB'')"
      and n2: "CHR '' '' \<notin> set (toFixed 1 p @ ''%'')"
      using nA nB nP by simp_all
    have "splitOn (CHR '' '') (ram res) = [toFixed 1 u @ ''/'' @ toFixed 1 g @ ''GB'', toFixed 1 p @ ''%'']"
      unfolding e splitOn_append_sep [OF n1] splitOn_no_sep [OF n2] ..
    then have "ramPercentOf (ram res) = toFixed 1 p @ ''%''"
      using l by simp
    moreover have "ram res = toFixed 1 u @ ''/'' @ toFixed 1 g @ ''GB '' @ toFixed 1 p @ ''%''"
      using e by simp
    ultimately show ?thesis
      using u g p unfolding U_def by blast
  qed
  have sb: "text (statusBarOf
                      \<lparr>showOS = False, showCPU = False, showRAM = True, showDisk = False,
                       showTraffic = False, showBandwidth = False, iconOnly = False\<rparr> osName bwStr res) =
            ''$(server) RAM '' @ ramPercentOf (ram res)"
    by (simp add: statusBarOf_def Let_def)
  have s': "ram res =
           (let usedMem = jsMinus (ofInt (totalmem h)) (ofInt (freemem h))
            in jsToFixed 1 (jsDivide usedMem (Fin (1024 * 1024 * 1024))) @ ''/'' @
               jsToFixed 1 (jsDivide (ofInt (totalmem h)) (Fin (1024 * 1024 * 1024))) @ ''GB '' @
               jsToFixed 1 (jsTimes (jsDivide usedMem (ofInt (totalmem h))) (Fin 100)) @ ''%'')"
    using s by (simp add: Let_def)
  show ?thesis
    unfolding sb using s' l b by metis
qed

text \<open>
  Witness of C10: 16 GiB of memory with 4 GiB free.
\<close>

theorem ram_field_witness:
  "ram (fst (projr (getResources
     \<lparr>platform = ''linux'',
      cpus = [\<lparr>model = ''cpu'', speed = 2400, times = \<lparr>user = 130, nice = 0, sys = 0, idle = 170, irq = 0\<rparr>\<rparr>],
      totalmem = 17179869184, freemem = 4294967296,
      diskExec = ExecError, netRead = ReadError, dateNow = 1700000001000\<rparr>
     \<lparr>previousCpus =
        [\<lparr>model = ''cpu'', speed = 2400, times = \<lparr>user = 100, nice = 0, sys = 0, idle = 100, irq = 0\<rparr>\<rparr>],
      prevNet = \<lparr>bytes = Fin 0, time = 0\<rparr>\<rparr>))) = ''12.0/16.0GB 75.0%''
   \<and> ramPercentOf (ram (fst (projr (getResources
     \<lparr>platform = ''linux'',
      cpus = [\<lparr>model = ''cpu'', speed = 2400, times = \<lparr>user = 130, nice = 0, sys = 0, idle = 170, irq = 0\<rparr>\<rparr>],
      totalmem = 17179869184, freemem = 4294967296,
      diskExec = ExecError, netRead = ReadError, dateNow = 1700000001000\<rparr>
     \<lparr>previousCpus =
        [\<lparr>model = ''cpu'', speed = 2400, times = \<lparr>user = 100, nice = 0, sys = 0, idle = 100, irq = 0\<rparr>\<rparr>],
      prevNet = \<lparr>bytes = Fin 0, time = 0\<rparr>\<rparr>)))) = ''75.0%''"
proof -
  let ?h = "\<lparr>platform = ''linux'',
      cpus = [\<lparr>model = ''cpu'', speed = 2400, times = \<lparr>user = 130, nice = 0, sys = 0, idle = 170, irq = 0\<rparr>\<rparr>],
      totalmem = 17179869184, freemem = 4294967296,
      diskExec = ExecError, netRead = ReadError, dateNow = 1700000001000\<rparr>"
  let ?tr = "\<lparr>previousCpus =
        [\<lparr>model = ''cpu'', speed = 2400, times = \<lparr>user = 100, nice = 0, sys = 0, idle = 100, irq = 0\<rparr>\<rparr>],
      prevNet = \<lparr>bytes = Fin 0, time = 0\<rparr>\<rparr>"
  obtain res tr' where g: "getResources ?h ?tr = Inr (res, tr')"
    by (simp add: getResources_def calculateCpuUsage_def getTrafUsage_def Let_def)
  have a: "jsDivide (Fin (real_of_int (17179869184 - 4294967296))) (Fin (1024 * 1024 * 1024)) = Fin 12"
    by (simp add: fl_eval)
  have b: "jsDivide (Fin (real_of_int 17179869184)) (Fin (1024 * 1024 * 1024)) = Fin 16"
    by (simp add: fl_eval)
  have c: "jsTimes (jsDivide (Fin (real_of_int (17179869184 - 4294967296)))
                             (Fin (real_of_int 17179869184))) (Fin 100) = Fin 75"
    by (simp add: fl_eval)
  have d: "toFixed 1 12 = ''12.0''" "toFixed 1 16 = ''16.0''" "toFixed 1 75 = ''75.0''"
    by (simp_all add: toFixed_eval)
  from ram_field [OF g, where osName = "''Linux''" and bwStr = "''N/A''"] a b c d
  have r1: "ram res = ''12.0/16.0GB 75.0%''" and r2: "ramPercentOf (ram res) = ''75.0%''"
    by auto
  show ?thesis
    using g r1 r2 by simp
qed

text \<open>
  Counterexample to C10 as stated: of 16000000000 bytes, 15976000000 are free. The exact
  percentage is \<open>0.15\<close>, which rounds to \<open>0.2\<close>; the doubles of the code give a value
  just below \<open>0.15\<close>, and the field ends in \<open>0.1%\<close>.
\<close>

theorem ram_field_rounding_counterexample:
  "ram (fst (projr (getResources
     \<lparr>platform = ''linux'',
      cpus = [\<lparr>model = ''cpu'', speed = 2400, times = \<lparr>user = 130, nice = 0, sys = 0, idle = 170, irq = 0\<rparr>\<rparr>],
      totalmem = 16000000000, freemem = 15976000000,
      diskExec = ExecError, netRead = ReadError, dateNow = 1700000001000\<rparr>
     \<lparr>previousCpus =
        [\<lparr>model = ''cpu'', speed = 2400, times = \<lparr>user = 100, nice = 0, sys = 0, idle = 100, irq = 0\<rparr>\<rparr>],
      prevNet = \<lparr>bytes = Fin 0, time = 0\<rparr>\<rparr>))) = ''0.0/14.9GB 0.1%''
   \<and> real_of_int (16000000000 - 15976000000) / real_of_int 16000000000 * 100 = 0.15
   \<and> toFixed 1 0.15 = ''0.2''"
proof -
  have "ramUsage 16000000000 15976000000 = ''0.0/14.9GB 0.1%''"
    by (simp add: ramUsage_def fl_eval toFixed_eval)
  moreover have "toFixed 1 0.15 = ''0.2''"
    by (simp add: toFixed_eval)
  ultimately show ?thesis
    by (simp add: getResources_def calculateCpuUsage_def getTrafUsage_def Let_def)
qed

lemma getResources_aligned:
  assumes "length (cpus h) \<le> length (previousCpus tr)"
  shows "\<exists>usage.
           calculateCpuUsage (cpus h) (previousCpus tr) = Inr (usage, cpus h)
           \<and> getResources h tr =
               Inr (\<lparr>cpu = usage,
                     ram = ramUsage (totalmem h) (freemem h),
                     disk = getDiskUsage (platform h) (diskExec h),
                     traf = fst (getTrafUsage (platform h) (netRead h) (dateNow h) (prevNet tr))\<rparr>,
                    \<lparr>previousCpus = cpus h,
                     prevNet = snd (getTrafUsage (platform h) (netRead h) (dateNow h) (prevNet tr))\<rparr>)"
proof -
  obtain usage where "calculateCpuUsage (cpus h) (previousCpus tr) = Inr (usage, cpus h)"
    using calculateCpuUsage_aligned [OF assms] by blast
  then show ?thesis
    by (simp add: getResources_def Let_def split: prod.splits)
qed

text \<open>
  What a failing probe does to a tick. When the previous sample has an entry for every core
  of the current one, the tick returns a result; a failed disk command gives the disk field
  \<open>''?''\<close>, an unreadable \<^verbatim>\<open>/proc/net/dev\<close> gives the traffic field \<open>''0Kbps''\<close> and leaves the
  stored network sample as it was, and the CPU and RAM fields are the same whatever the
  two probes answer.
\<close>

lemma tick_with_failing_probes:
  assumes "length (cpus h) \<le> length (previousCpus tr)"
  shows "\<exists>res tr'. getResources h tr = Inr (res, tr')
         \<and> updateStatusBarItem cfg osName testing lastResult h tr =
             Inr (statusBarOf cfg osName (if testing then ''Testing...'' else lastResult) res, tr')
         \<and> calculateCpuUsage (cpus h) (previousCpus tr) = Inr (cpu res, cpus h)
         \<and> ram res = ramUsage (totalmem h) (freemem h)
         \<and> previousCpus tr' = cpus h
         \<and> (diskExec h = ExecError \<longrightarrow> disk res = ''?'')
         \<and> (platform h = ''linux'' \<and> netRead h = ReadError \<longrightarrow>
              traf res = ''0Kbps'' \<and> prevNet tr' = prevNet tr)
         \<and> (\<forall>d n. \<exists>res2 tr2.
               getResources (h\<lparr>diskExec := d, netRead := n\<rparr>) tr = Inr (res2, tr2)
               \<and> cpu res2 = cpu res \<and> ram res2 = ram res
               \<and> (d = diskExec h \<longrightarrow> disk res2 = disk res)
               \<and> (n = netRead h \<longrightarrow> traf res2 = traf res))"
proof -
  have d: "getDiskUsage pf ExecError = ''?''" for pf
    by (simp add: getDiskUsage_def)
  have n: "getTrafUsage ''linux'' ReadError t p = (''0Kbps'', p)" for t p
    by (simp add: getTrafUsage_def)
  obtain usage where u: "calculateCpuUsage (cpus h) (previousCpus tr) = Inr (usage, cpus h)"
    using calculateCpuUsage_aligned [OF assms] by blast
  have g: "getResources (h\<lparr>diskExec := d, netRead := n\<rparr>) tr =
             Inr (\<lparr>cpu = usage,
                   ram = ramUsage (totalmem h) (freemem h),
                   disk = getDiskUsage (platform h) d,
                   traf = fst (getTrafUsage (platform h) n (dateNow h) (prevNet tr))\<rparr>,
                  \<lparr>previousCpus = cpus h,
                   prevNet = snd (getTrafUsage (platform h) n (dateNow h) (prevNet tr))\<rparr>)" for d n
    using u by (simp add: getResources_def Let_def split: prod.splits)
  have g0: "getResources h tr =
             Inr (\<lparr>cpu = usage,
                   ram = ramUsage (totalmem h) (freemem h),
                   disk = getDiskUsage (platform h) (diskExec h),
                   traf = fst (getTrafUsage (platform h) (netRead h) (dateNow h) (prevNet tr))\<rparr>,
                  \<lparr>previousCpus = cpus h,
                   prevNet = snd (getTrafUsage (platform h) (netRead h) (dateNow h) (prevNet tr))\<rparr>)"
    using u by (simp add: getResources_def Let_def split: prod.splits)
  show ?thesis
    unfolding updateStatusBarItem_def g g0
    by (simp add: d n u)
qed

text \<open>
  Claim C1 fails on the code for a tick in which the disk command fails and the host
  reports one core more than the previous sample has: \<^verbatim>\<open>calculateCpuUsage\<close> throws a
  TypeError (the same defect as in C7), the promise of \<^verbatim>\<open>getResources\<close> is rejected, and
  \<^verbatim>\<open>updateStatusBarItem\<close> produces nothing, instead of a result with the disk field \<open>''?''\<close>.
\<close>

theorem tick_rejects_on_added_core:
  "getResources
     \<lparr>platform = ''linux'',
      cpus = [\<lparr>model = ''cpu'', speed = 2400, times = \<lparr>user = 130, nice = 0, sys = 0, idle = 170, irq = 0\<rparr>\<rparr>,
              \<lparr>model = ''cpu'', speed = 2400, times = \<lparr>user = 10, nice = 0, sys = 0, idle = 20, irq = 0\<rparr>\<rparr>],
      totalmem = 17179869184, freemem = 4294967296,
      diskExec = ExecError, netRead = ReadOk [], dateNow = 1700000001000\<rparr>
     \<lparr>previousCpus =
        [\<lparr>model = ''cpu'', speed = 2400, times = \<lparr>user = 100, nice = 0, sys = 0, idle = 100, irq = 0\<rparr>\<rparr>],
      prevNet = \<lparr>bytes = Fin 0, time = 0\<rparr>\<rparr> = Inl TypeError
   \<and> updateStatusBarItem
     \<lparr>showOS = True, showCPU = True, showRAM = True, showDisk = True,
      showTraffic = True, showBandwidth = True, iconOnly = False\<rparr> ''Linux'' False ''N/A''
     \<lparr>platform = ''linux'',
      cpus = [\<lparr>model = ''cpu'', speed = 2400, times = \<lparr>user = 130, nice = 0, sys = 0, idle = 170, irq = 0\<rparr>\<rparr>,
              \<lparr>model = ''cpu'', speed = 2400, times = \<lparr>user = 10, nice = 0, sys = 0, idle = 20, irq = 0\<rparr>\<rparr>],
      totalmem = 17179869184, freemem = 4294967296,
      diskExec = ExecError, netRead = ReadOk [], dateNow = 1700000001000\<rparr>
     \<lparr>previousCpus =
        [\<lparr>model = ''cpu'', speed = 2400, times = \<lparr>user = 100, nice = 0, sys = 0, idle = 100, irq = 0\<rparr>\<rparr>],
      prevNet = \<lparr>bytes = Fin 0, time = 0\<rparr>\<rparr> = Inl TypeError"
  by (simp add: getResources_def updateStatusBarItem_def calculateCpuUsage_def)

section \<open>Bandwidth prober: properties\<close>

lemma singleFlight_initial: "singleFlight initialProber"
  by (simp add: singleFlight_def initialProber_def)

lemma singleFlight_step: "singleFlight p \<Longrightarrow> singleFlight (step p e)"
proof (cases e)
  case (Click t)
  assume "singleFlight p"
  then show ?thesis
    using Click by (auto simp: singleFlight_def runSpeedTest_def)
next
  case (Data i n)
  assume "singleFlight p"
  then show ?thesis
    using Data by (auto simp: singleFlight_def onData_def)
next
  case (Settled i out)
  assume "singleFlight p"
  then show ?thesis
    using Settled by (cases out) (auto simp: singleFlight_def onSettled_def Let_def)
qed

lemma singleFlight_foldl: "singleFlight p \<Longrightarrow> singleFlight (foldl step p evs)"
  by (induction evs arbitrary: p) (simp_all add: singleFlight_step)

lemma singleFlight_runEvents: "singleFlight (runEvents evs)"
  unfolding runEvents_def by (rule singleFlight_foldl [OF singleFlight_initial])

text \<open>
  Claim C2. While a probe is running, a call of \<^verbatim>\<open>runSpeedTest\<close> changes nothing. A call
  when none is running issues one request and sets the flag, and a second call right after
  it changes nothing more: two rapid calls issue exactly one request. After any sequence of
  clicks, chunks and settled downloads, at most one run is waiting, and the flag is set
  exactly when one is.
\<close>

theorem runSpeedTest_single_flight:
  "(isTestingSpeed p \<longrightarrow> runSpeedTest t p = p)
   \<and> (\<not> isTestingSpeed p \<longrightarrow>
        requests (runSpeedTest t p) = requests p + 1 \<and>
        isTestingSpeed (runSpeedTest t p) \<and>
        runSpeedTest t' (runSpeedTest t p) = runSpeedTest t p)
   \<and> length (pending (runEvents evs)) \<le> 1
   \<and> (isTestingSpeed (runEvents evs) \<longleftrightarrow> pending (runEvents evs) \<noteq> [])"
proof -
  have "singleFlight (runEvents evs)" by (rule singleFlight_runEvents)
  then show ?thesis by (simp add: singleFlight_def runSpeedTest_def)
qed

text \<open>
  Witness of C2: three clicks in a row after activation issue one request.
\<close>

theorem runSpeedTest_single_flight_witness:
  "requests (runEvents [Click 1000, Click 1001, Click 1002]) = 1
   \<and> runEvents [Click 1000, Click 1001] = runEvents [Click 1000]
   \<and> length (pending (runEvents [Click 1000, Click 1001, Click 1002])) = 1"
proof -
  have a: "\<not> isTestingSpeed initialProber" "requests initialProber = 0"
    by (simp_all add: initialProber_def)
  have r: "runEvents [Click 1000, Click 1001, Click 1002] =
           runSpeedTest 1002 (runSpeedTest 1001 (runSpeedTest 1000 initialProber))"
    "runEvents [Click 1000, Click 1001] = runSpeedTest 1001 (runSpeedTest 1000 initialProber)"
    "runEvents [Click 1000] = runSpeedTest 1000 initialProber"
    by (simp_all add: runEvents_def)
  have b: "isTestingSpeed (runSpeedTest 1000 initialProber)"
    using runSpeedTest_single_flight [of initialProber 1000 1001 "[]"] a by simp
  have c: "runSpeedTest 1001 (runSpeedTest 1000 initialProber) = runSpeedTest 1000 initialProber"
    using runSpeedTest_single_flight [of initialProber 1000 1001 "[]"] a by simp
  have d: "runSpeedTest 1002 (runSpeedTest 1000 initialProber) = runSpeedTest 1000 initialProber"
    using runSpeedTest_single_flight [of "runSpeedTest 1000 initialProber" 1002 0 "[]"] b by simp
  have e: "requests (runSpeedTest 1000 initialProber) = 1"
    using runSpeedTest_single_flight [of initialProber 1000 1001 "[]"] a by simp
  have f: "pending (runSpeedTest 1000 initialProber) \<noteq> []"
    using runSpeedTest_single_flight [of initialProber 1000 1001 "[Click 1000]"] b r(3) by simp
  have g: "length (pending (runSpeedTest 1000 initialProber)) \<le> 1"
    using runSpeedTest_single_flight [of initialProber 1000 1001 "[Click 1000]"] r(3) by simp
  from f g have "length (pending (runSpeedTest 1000 initialProber)) = 1"
    by (cases "pending (runSpeedTest 1000 initialProber)") simp_all
  with r c d e show ?thesis by simp
qed

text \<open>
  Claim C3. When the download of a waiting run settles, however it settles, the flag is
  released. When it settles with a failure, the display is \<open>''Error''\<close>, exactly one error
  notification is added and no information message. A call of \<^verbatim>\<open>runSpeedTest\<close> right
  afterwards sets the flag again and issues a new request.
\<close>

theorem probe_failure_releases_flag:
  assumes "i < length (pending p)"
  shows "\<not> isTestingSpeed (onSettled i out p)
         \<and> (isFailure out \<longrightarrow>
              lastSpeedTestResult (onSettled i out p) = ''Error'' \<and>
              errorMessages (onSettled i out p) =
                errorMessages p @ [''Speed Test Failed: '' @ failureMessage out] \<and>
              infoMessages (onSettled i out p) = infoMessages p)
         \<and> isTestingSpeed (runSpeedTest t (onSettled i out p))
         \<and> requests (runSpeedTest t (onSettled i out p)) = requests p + 1
         \<and> length (pending (runSpeedTest t (onSettled i out p))) = length (pending p)"
  using assms
  by (cases out) (simp_all add: onSettled_def runSpeedTest_def isFailure_def Let_def)

text \<open>
  Witness of C3: a click, a response with status 503, and a second click.
\<close>

theorem probe_failure_releases_flag_witness:
  "lastSpeedTestResult (runEvents [Click 1000, Settled 0 (BadStatus 503)]) = ''Error''
   \<and> errorMessages (runEvents [Click 1000, Settled 0 (BadStatus 503)]) =
       [''Speed Test Failed: Request failed: 503'']
   \<and> \<not> isTestingSpeed (runEvents [Click 1000, Settled 0 (BadStatus 503)])
   \<and> isTestingSpeed (runEvents [Click 1000, Settled 0 (BadStatus 503), Click 2000])
   \<and> requests (runEvents [Click 1000, Settled 0 (BadStatus 503), Click 2000]) = 2"
proof -
  let ?p = "runSpeedTest 1000 initialProber"
  have h: "0 < length (pending ?p)"
    by (simp add: runSpeedTest_def initialProber_def)
  have f: "isFailure (BadStatus 503)"
    by (simp add: isFailure_def)
  have m: "failureMessage (BadStatus 503) = ''Request failed: 503''"
    by (simp add: failureMessage_def showNat.simps digitChar_def)
  have e: "errorMessages ?p = []" "requests ?p = 1"
    by (simp_all add: runSpeedTest_def initialProber_def)
  have r: "runEvents [Click 1000, Settled 0 (BadStatus 503)] = onSettled 0 (BadStatus 503) ?p"
    "runEvents [Click 1000, Settled 0 (BadStatus 503), Click 2000] =
       runSpeedTest 2000 (onSettled 0 (BadStatus 503) ?p)"
    by (simp_all add: runEvents_def)
  from probe_failure_releases_flag [OF h, of "BadStatus 503" 2000] f m e r
  show ?thesis by simp
qed

end
